theory Spec2Isabelle
  imports Main "HOL-Library.Word"
begin

section \<open>The line renderer of vs/editor/common/viewLayout/viewLineRenderer.ts\<close>

subsection \<open>Strings and numbers\<close>

text \<open>
  A JavaScript string is a sequence of UTF-16 code units; \<open>charCodeAt\<close> reads one unit.
  The renderer tests for U+2028 and U+FEFF, so units are 16 bits wide. String literals
  of the source are ASCII and written through \<open>js\<close>.
\<close>

type_synonym code_unit = "16 word"
type_synonym js_string = "code_unit list"

definition js :: "string \<Rightarrow> js_string" where
  "js s = map of_char s"

text \<open>Lines 39 to 46: the character codes the switch compares with.\<close>

definition c_space :: code_unit where "c_space = of_char (CHR '' '')"
definition c_tab :: code_unit where "c_tab = 9"
definition c_lowerThan :: code_unit where "c_lowerThan = of_char (CHR ''<'')"
definition c_greaterThan :: code_unit where "c_greaterThan = of_char (CHR ''>'')"
definition c_ampersand :: code_unit where "c_ampersand = of_char (CHR ''&'')"
definition c_carriageReturn :: code_unit where "c_carriageReturn = 13"
definition c_lineSeparator :: code_unit where "c_lineSeparator = 0x2028"
definition c_bom :: code_unit where "c_bom = 65279"

text \<open>
  \<open>s.charCodeAt(i)\<close> is the unit at \<open>i\<close>, or NaN (here \<open>None\<close>) out of range;
  \<open>s.charAt(i)\<close> is the one-unit string there, or the empty string out of range.
\<close>

definition charCodeAt :: "js_string \<Rightarrow> nat \<Rightarrow> code_unit option" where
  "charCodeAt s i = (if i < length s then Some (s ! i) else None)"

definition charAt :: "js_string \<Rightarrow> nat \<Rightarrow> js_string" where
  "charAt s i = (if i < length s then [s ! i] else [])"

text \<open>
  Numbers of the source are modelled as integers (loop counters, which start at 0 and
  only count up, as naturals). \<open>a % b\<close> is the remainder of the truncating division:
  it has the sign of \<open>a\<close>. For \<open>b = 0\<close> JavaScript yields NaN, which an integer does
  not represent: the theorems about tab stops assume a tab size of at least 1.
\<close>

definition js_rem :: "int \<Rightarrow> int \<Rightarrow> int" where
  "js_rem a b = sgn a * (\<bar>a\<bar> mod \<bar>b\<bar>)"

subsection \<open>Data\<close>

text \<open>
  Modelled from the spec: the declaration of \<open>LineToken\<close> (imported from
  vs/editor/common/editorCommon) is not among the sources; the spec gives it as
  \<open>{ startIndex: integer, type: label string }\<close>, and the renderer reads these two
  fields only.
\<close>

record LineToken =
  startIndex :: int
  type :: js_string

record RenderLineInput =
  lineContent :: js_string
  tabSize :: int
  stopRenderingLineAfter :: int
  renderWhitespace :: bool
  parts :: "LineToken list"

record IRenderLineOutput =
  charOffsetInPart :: "int list"
  lastRenderedPartIndex :: int
  "output" :: "js_string list"

text \<open>The one exception the renderer throws, with its message.\<close>

datatype error = Error js_string

subsection \<open>The whitespace test on a token type\<close>

text \<open>
  Line 72: the regular expression \<open>/\bwhitespace\b/\<close>. A word character is one of
  \<open>[A-Za-z0-9_]\<close>; as \<open>w\<close> and \<open>e\<close> are word characters, the boundary before the match
  asks for no word character in front of it (or the start), the boundary after it for
  no word character behind it (or the end). The expression has no flags, so \<open>test\<close>
  keeps no state between calls.
\<close>

definition isWordChar :: "code_unit \<Rightarrow> bool" where
  "isWordChar c \<longleftrightarrow>
     (of_char (CHR ''a'') \<le> c \<and> c \<le> of_char (CHR ''z'')) \<or>
     (of_char (CHR ''A'') \<le> c \<and> c \<le> of_char (CHR ''Z'')) \<or>
     (of_char (CHR ''0'') \<le> c \<and> c \<le> of_char (CHR ''9'')) \<or>
     c = of_char (CHR ''_'')"

definition matchesHere :: "js_string \<Rightarrow> bool" where
  "matchesHere s \<longleftrightarrow>
     take 10 s = js ''whitespace'' \<and>
     (case drop 10 s of [] \<Rightarrow> True | c # _ \<Rightarrow> \<not> isWordChar c)"

fun matchesFrom :: "bool \<Rightarrow> js_string \<Rightarrow> bool" where
  "matchesFrom afterWord [] = False"
| "matchesFrom afterWord (c # cs) =
     ((\<not> afterWord \<and> matchesHere (c # cs)) \<or> matchesFrom (isWordChar c) cs)"

definition isWhitespace :: "js_string \<Rightarrow> bool" where
  "isWhitespace t = matchesFrom False t"

subsection \<open>The arrays the scan writes\<close>

text \<open>
  \<open>a[i] = v\<close> on a JavaScript array: an index below the length overwrites, the length
  itself appends, and a larger index would leave holes in between. The scan only ever
  writes at the length: the table is as long as the character index says (lemmas
  \<open>chars_loop_Continue\<close> and \<open>parts_loop_Continue\<close> below), so the padding of the last
  case is never produced.
\<close>

definition array_set :: "int list \<Rightarrow> nat \<Rightarrow> int \<Rightarrow> int list" where
  "array_set a i v =
     (if i < length a then a[i := v] else a @ replicate (i - length a) 0 @ [v])"

text \<open>
  Line 165, \<open>a[a.length - 1]++\<close>: the last entry is incremented; on an empty array the
  index is -1, which is no element, and the elements stay as they are.
\<close>

definition incr_last :: "int list \<Rightarrow> int list" where
  "incr_last a = (if a = [] then a else a[length a - 1 := a ! (length a - 1) + 1])"

subsection \<open>The scan\<close>

text \<open>The variables of \<open>renderLineActual\<close> that its loops update (lines 82 to 86).\<close>

record scan =
  charIndex :: nat
  out :: "js_string list"
  charOffsetInPartArr :: "int list"
  charOffsetInPart' :: int
  tabsCharDelta :: int

text \<open>Lines 121 to 124: the loop that pushes the remaining columns of a tab.\<close>

function push_nbsp :: "js_string list \<Rightarrow> int \<Rightarrow> js_string list" where
  "push_nbsp out0 insertSpacesCount0 =
     (if insertSpacesCount0 > 0
      then push_nbsp (out0 @ [js ''&nbsp;'']) (insertSpacesCount0 - 1)
      else out0)"
  by pat_completeness auto
termination
  by (relation "measure (\<lambda>(out0, n). nat n)") auto

declare push_nbsp.simps [simp del]

text \<open>Line 114: the distance to the next tab stop.\<close>

definition insertSpacesCount :: "int \<Rightarrow> nat \<Rightarrow> int \<Rightarrow> int" where
  "insertSpacesCount tabSize0 charIndex0 tabsCharDelta0 =
     tabSize0 - js_rem (int charIndex0 + tabsCharDelta0) tabSize0"

text \<open>Lines 113 to 125: the case of a tab.\<close>

definition case_tab :: "int \<Rightarrow> bool \<Rightarrow> scan \<Rightarrow> scan" where
  "case_tab tabSize0 partRendersWhitespace s =
     (let n = insertSpacesCount tabSize0 (charIndex s) (tabsCharDelta s);
          s1 = s\<lparr>tabsCharDelta := tabsCharDelta s + (n - 1),
                 charOffsetInPart' := charOffsetInPart' s + (n - 1)\<rparr>
      in if n > 0
         then s1\<lparr>out := push_nbsp
                 (out s @ [if partRendersWhitespace then js ''&rarr;'' else js ''&nbsp;''])
                 (n - 1)\<rparr>
         else s1\<lparr>out := push_nbsp (out s) n\<rparr>)"

text \<open>Lines 110 to 159: the switch on the character code.\<close>

definition switch_charCode :: "js_string \<Rightarrow> int \<Rightarrow> bool \<Rightarrow> scan \<Rightarrow> scan" where
  "switch_charCode lineText tabSize0 partRendersWhitespace s =
     (let charCode = charCodeAt lineText (charIndex s) in
      if charCode = Some c_tab then case_tab tabSize0 partRendersWhitespace s
      else if charCode = Some c_space then
        s\<lparr>out := out s @ [if partRendersWhitespace then js ''&middot;'' else js ''&nbsp;'']\<rparr>
      else if charCode = Some c_lowerThan then s\<lparr>out := out s @ [js ''&lt;'']\<rparr>
      else if charCode = Some c_greaterThan then s\<lparr>out := out s @ [js ''&gt;'']\<rparr>
      else if charCode = Some c_ampersand then s\<lparr>out := out s @ [js ''&amp;'']\<rparr>
      else if charCode = Some 0 then s\<lparr>out := out s @ [js ''&#00;'']\<rparr>
      else if charCode = Some c_bom \<or> charCode = Some c_lineSeparator then
        s\<lparr>out := out s @ [[0xFFFD]]\<rparr>
      else if charCode = Some c_carriageReturn then s\<lparr>out := out s @ [js ''&#8203'']\<rparr>
      else s\<lparr>out := out s @ [charAt lineText (charIndex s)]\<rparr>)"

text \<open>
  Lines 109 to 161: one character. Its offset is recorded first, then the switch
  runs, then the offset counter moves on by one.
\<close>

definition char_step :: "js_string \<Rightarrow> int \<Rightarrow> bool \<Rightarrow> scan \<Rightarrow> scan" where
  "char_step lineText tabSize0 partRendersWhitespace s =
     (let s1 = s\<lparr>charOffsetInPartArr :=
                   array_set (charOffsetInPartArr s) (charIndex s) (charOffsetInPart' s)\<rparr>;
          s2 = switch_charCode lineText tabSize0 partRendersWhitespace s1
      in s2\<lparr>charOffsetInPart' := charOffsetInPart' s2 + 1\<rparr>)"

text \<open>A loop either returns from the function or hands its variables on.\<close>

datatype flow = Return IRenderLineOutput | Continue scan

text \<open>
  Lines 108 to 172: the loop over the characters of one token. The test of line 163
  follows every character; where it holds the function returns at once.
\<close>

function chars_loop ::
  "js_string \<Rightarrow> int \<Rightarrow> bool \<Rightarrow> int \<Rightarrow> nat \<Rightarrow> int \<Rightarrow> scan \<Rightarrow> flow" where
  "chars_loop lineText tabSize0 partRendersWhitespace charBreakIndex partIndex toCharIndex s =
     (if int (charIndex s) < toCharIndex then
        (if int (charIndex s) \<ge> charBreakIndex then
           Return
             \<lparr>charOffsetInPart =
                incr_last (charOffsetInPartArr (char_step lineText tabSize0 partRendersWhitespace s)),
              lastRenderedPartIndex = int partIndex,
              output = out (char_step lineText tabSize0 partRendersWhitespace s) @
                         [js ''&hellip;</span></span>'']\<rparr>
         else chars_loop lineText tabSize0 partRendersWhitespace charBreakIndex partIndex
                toCharIndex
                ((char_step lineText tabSize0 partRendersWhitespace s)\<lparr>charIndex := charIndex s + 1\<rparr>))
      else Continue s)"
  by pat_completeness auto
termination
  by (relation "measure (\<lambda>(lineText, tabSize0, ws, charBreakIndex, partIndex, toCharIndex, s).
                    nat (toCharIndex - int (charIndex s)))") auto

declare chars_loop.simps [simp del]

text \<open>
  Lines 92 to 94 and 107: a token opens its span, with its type as the class, and the
  offset counter starts again at 0. Line 173 closes the span.
\<close>

definition open_part :: "LineToken \<Rightarrow> scan \<Rightarrow> scan" where
  \<open>open_part part s =
     s\<lparr>out := out s @ [js ''<span class="token '', type part, js ''">''],
       charOffsetInPart' := 0\<rparr>\<close>

definition close_part :: "scan \<Rightarrow> scan" where
  "close_part s = s\<lparr>out := out s @ [js ''</span>'']\<rparr>"

text \<open>Lines 96 to 99: whether the token shows its whitespace.\<close>

definition partRendersWhitespace_of :: "bool \<Rightarrow> LineToken \<Rightarrow> bool" where
  "partRendersWhitespace_of renderWhitespace0 part =
     (if renderWhitespace0 then isWhitespace (type part) else False)"

text \<open>
  Lines 101 to 105: where the characters of the token at \<open>partIndex\<close> end: at the start
  of the next token, at most at the end of the line; the last token ends with the line.
\<close>

definition toCharIndex_of :: "int \<Rightarrow> LineToken list \<Rightarrow> nat \<Rightarrow> int" where
  "toCharIndex_of lineTextLength actualLineParts partIndex =
     (if partIndex + 1 < length actualLineParts
      then min lineTextLength (startIndex (actualLineParts ! (partIndex + 1)))
      else lineTextLength)"

text \<open>
  Lines 89 to 174: the loop over the tokens. The character index is not reset from one
  token to the next: a token takes up the line where the one before it stopped.
\<close>

function parts_loop ::
  "js_string \<Rightarrow> int \<Rightarrow> int \<Rightarrow> LineToken list \<Rightarrow> bool \<Rightarrow> int \<Rightarrow> nat \<Rightarrow> scan \<Rightarrow> flow" where
  "parts_loop lineText lineTextLength tabSize0 actualLineParts renderWhitespace0 charBreakIndex
       partIndex s =
     (if partIndex < length actualLineParts then
        (case chars_loop lineText tabSize0
                (partRendersWhitespace_of renderWhitespace0 (actualLineParts ! partIndex))
                charBreakIndex partIndex
                (toCharIndex_of lineTextLength actualLineParts partIndex)
                (open_part (actualLineParts ! partIndex) s) of
           Return r \<Rightarrow> Return r
         | Continue s3 \<Rightarrow>
             parts_loop lineText lineTextLength tabSize0 actualLineParts renderWhitespace0
               charBreakIndex (partIndex + 1) (close_part s3))
      else Continue s)"
  by pat_completeness auto
termination
  by (relation "measure (\<lambda>(lineText, lineTextLength, tabSize0, actualLineParts, rw,
                    charBreakIndex, partIndex, s). length actualLineParts - partIndex)") auto

declare parts_loop.simps [simp del]

text \<open>Lines 82 to 88: the variables as the scan starts, the outer span opened.\<close>

definition initial_scan :: scan where
  "initial_scan =
     \<lparr>charIndex = 0, out = [js ''<span>''], charOffsetInPartArr = [],
      charOffsetInPart' = 0, tabsCharDelta = 0\<rparr>"

text \<open>
  Lines 77 to 186. When the loop over the tokens ends without a return, line 175
  closes the outer span and line 179 appends the offset counter to the table.
\<close>

definition renderLineActual ::
  "js_string \<Rightarrow> int \<Rightarrow> int \<Rightarrow> LineToken list \<Rightarrow> bool \<Rightarrow> int \<Rightarrow> IRenderLineOutput" where
  "renderLineActual lineText lineTextLength tabSize0 actualLineParts renderWhitespace0
       charBreakIndex =
     (case parts_loop lineText lineTextLength tabSize0 actualLineParts renderWhitespace0
             charBreakIndex 0 initial_scan of
        Return r \<Rightarrow> r
      | Continue s \<Rightarrow>
          \<lparr>charOffsetInPart = charOffsetInPartArr s @ [charOffsetInPart' s],
           lastRenderedPartIndex = int (length actualLineParts) - 1,
           output = out s @ [js ''</span>'']\<rparr>)"

text \<open>Line 54: the index at which the scan breaks off.\<close>

definition charBreakIndex_of :: "RenderLineInput \<Rightarrow> int" where
  "charBreakIndex_of input =
     (if stopRenderingLineAfter input = - 1 then int (length (lineContent input))
      else stopRenderingLineAfter input - 1)"

text \<open>
  Lines 48 to 70. \<open>slice(0)\<close> hands a copy of the token array to the scan; as a value
  the copy is the same list.
\<close>

definition renderLine :: "RenderLineInput \<Rightarrow> error + IRenderLineOutput" where
  "renderLine input =
     (let lineText = lineContent input;
          lineTextLength = int (length lineText);
          actualLineParts = parts input
      in if lineTextLength = 0 then
           Inr \<lparr>charOffsetInPart = [], lastRenderedPartIndex = 0,
                output = [js ''<span><span>&nbsp;</span></span>'']\<rparr>
         else if length actualLineParts = 0 then
           Inl (Error (js ''Cannot render non empty line without line parts!''))
         else Inr (renderLineActual lineText lineTextLength (tabSize input) actualLineParts
                     (renderWhitespace input) (charBreakIndex_of input)))"

subsection \<open>Notions the properties are stated with\<close>

text \<open>
  The raw characters that the renderer has to escape, as one-unit fragments, and the
  fragment that marks a line cut short.
\<close>

definition marked :: "js_string set" where
  "marked = {js ''<'', js ''>'', js ''&'', js ''&hellip;</span></span>''}"

text \<open>
  A result \<open>r\<close> is a scan cut short of the scan that went on to the fragments and
  offsets given: its fragments are a prefix of these, followed by the marker; its
  offsets are a prefix of these, the last one moved on by one.
\<close>

definition cut_short :: "IRenderLineOutput \<Rightarrow> js_string list \<Rightarrow> int list \<Rightarrow> bool" where
  "cut_short r fragments offsets \<longleftrightarrow>
     (\<exists>pre v ys ofs fs.
        charOffsetInPart r = pre @ [v + 1] \<and> offsets = pre @ v # ys \<and>
        output r = ofs @ [js ''&hellip;</span></span>''] \<and> fragments = ofs @ fs)"

text \<open>The loop over the tokens as \<open>renderLine\<close> starts it on a non-empty line.\<close>

definition scan_of :: "RenderLineInput \<Rightarrow> flow" where
  "scan_of input =
     parts_loop (lineContent input) (int (length (lineContent input))) (tabSize input)
       (parts input) (renderWhitespace input) (charBreakIndex_of input) 0 initial_scan"

text \<open>
  The tokens the spec asks of a caller for a non-empty line: at least one, the first
  at offset 0, the start offsets strictly increasing.
\<close>

definition ordered_tokens :: "LineToken list \<Rightarrow> bool" where
  "ordered_tokens ps \<longleftrightarrow>
     ps \<noteq> [] \<and> startIndex (hd ps) = 0 \<and> sorted_wrt (<) (map startIndex ps)"

text \<open>
  The variables as a scan can have them: as the scan starts, and after a token is
  opened, a character is taken or a token is closed. The loops go from such variables to
  such variables only (lemmas \<open>chars_loop_reached\<close> and \<open>parts_loop_reached\<close>).
\<close>

inductive reached :: "js_string \<Rightarrow> int \<Rightarrow> scan \<Rightarrow> bool"
  for lineText :: js_string and tabSize0 :: int where
  start: "reached lineText tabSize0 initial_scan"
| opened: "reached lineText tabSize0 s \<Longrightarrow> reached lineText tabSize0 (open_part part s)"
| stepped:
    "reached lineText tabSize0 s \<Longrightarrow>
     reached lineText tabSize0
       ((char_step lineText tabSize0 partRendersWhitespace s)\<lparr>charIndex := charIndex s + 1\<rparr>)"
| closed: "reached lineText tabSize0 s \<Longrightarrow> reached lineText tabSize0 (close_part s)"

text \<open>The entity that stands for a character the renderer escapes.\<close>

definition entity :: "code_unit \<Rightarrow> js_string" where
  "entity c =
     (if c = c_lowerThan then js ''&lt;''
      else if c = c_greaterThan then js ''&gt;''
      else js ''&amp;'')"

subsection \<open>The renderer on a store\<close>

text \<open>
  The token array is an object that the caller and the renderer share, and so are the
  tokens. To follow what the renderer writes, the arrays and the tokens are placed in a
  store: an address holds a token, an array of references to tokens, an array of
  strings or an array of numbers. The addresses below \<open>lim\<close> are in use; a new object
  takes the address \<open>lim\<close>. Strings and numbers are values, as in JavaScript.
\<close>

type_synonym addr = nat

datatype obj =
  TokenObj LineToken
| TokenArr "addr list"
| StringArr "js_string list"
| NumberArr "int list"

record store =
  objs :: "addr \<Rightarrow> obj option"
  lim :: addr

text \<open>An array literal or \<open>slice\<close> makes a new object; an assignment overwrites one.\<close>

definition alloc :: "obj \<Rightarrow> store \<Rightarrow> addr \<times> store" where
  "alloc v \<sigma> = (lim \<sigma>, \<lparr>objs = (objs \<sigma>)(lim \<sigma> \<mapsto> v), lim = Suc (lim \<sigma>)\<rparr>)"

definition put :: "addr \<Rightarrow> obj \<Rightarrow> store \<Rightarrow> store" where
  "put a v \<sigma> = \<sigma>\<lparr>objs := (objs \<sigma>)(a \<mapsto> v)\<rparr>"

text \<open>
  The input and the result with references in place of their arrays: \<open>parts\<close> is the
  address of the caller's token array, and the result holds the addresses of the two
  arrays it returns. The input object itself is only read (lines 49 to 54) and the
  result object is new, so both are passed as values.
\<close>

record RenderLineInput_ref =
  lineContent_ref :: js_string
  tabSize_ref :: int
  stopRenderingLineAfter_ref :: int
  renderWhitespace_ref :: bool
  parts_ref :: addr

record IRenderLineOutput_ref =
  charOffsetInPart_ref :: addr
  lastRenderedPartIndex_ref :: int
  output_ref :: addr

text \<open>
  Besides the error of line 66, a read through a reference that holds no object of the
  kind expected is a \<open>TypeError\<close>, as reading a property of \<open>undefined\<close> is.
\<close>

datatype error_ref = Thrown error | TypeError

text \<open>
  The variables of \<open>renderLineActual\<close>: \<open>out\<close> and \<open>charOffsetInPartArr\<close> are
  references to the arrays made in lines 83 and 84, the others are numbers.
\<close>

record locals =
  charIndex_l :: nat
  out_l :: addr
  charOffsetInPartArr_l :: addr
  charOffsetInPart_l :: int
  tabsCharDelta_l :: int

datatype flow_ref = Return_ref IRenderLineOutput_ref | Continue_ref locals | Throw_ref

text \<open>
  The statements of the scan write to the two arrays \<open>out\<close> and \<open>charOffsetInPartArr\<close>
  and to the numbers, and to nothing else. On the store a statement is therefore the
  function of the scan, applied to the contents found at the two references and written
  back there: \<open>load\<close> reads the variables, \<open>unload\<close> writes them.
\<close>

definition load :: "store \<Rightarrow> locals \<Rightarrow> scan option" where
  "load \<sigma> l =
     (case (objs \<sigma> (out_l l), objs \<sigma> (charOffsetInPartArr_l l)) of
        (Some (StringArr fragments), Some (NumberArr offsets)) \<Rightarrow>
          Some \<lparr>charIndex = charIndex_l l, out = fragments, charOffsetInPartArr = offsets,
                charOffsetInPart' = charOffsetInPart_l l, tabsCharDelta = tabsCharDelta_l l\<rparr>
      | _ \<Rightarrow> None)"

definition unload :: "scan \<Rightarrow> locals \<Rightarrow> store \<Rightarrow> store \<times> locals" where
  "unload s l \<sigma> =
     (put (charOffsetInPartArr_l l) (NumberArr (charOffsetInPartArr s))
        (put (out_l l) (StringArr (out s)) \<sigma>),
      l\<lparr>charIndex_l := charIndex s, charOffsetInPart_l := charOffsetInPart' s,
        tabsCharDelta_l := tabsCharDelta s\<rparr>)"

definition step_ref ::
  "(scan \<Rightarrow> scan) \<Rightarrow> store \<Rightarrow> locals \<Rightarrow> (store \<times> locals) option" where
  "step_ref f \<sigma> l = (case load \<sigma> l of None \<Rightarrow> None | Some s \<Rightarrow> Some (unload (f s) l \<sigma>))"

text \<open>Lines 164 and 165: the marker is pushed and the last offset incremented.\<close>

definition cut_ref :: "scan \<Rightarrow> scan" where
  "cut_ref s =
     s\<lparr>out := out s @ [js ''&hellip;</span></span>''],
       charOffsetInPartArr := incr_last (charOffsetInPartArr s)\<rparr>"

text \<open>Lines 108 to 172 on the store.\<close>

function chars_loop_ref ::
  "js_string \<Rightarrow> int \<Rightarrow> bool \<Rightarrow> int \<Rightarrow> nat \<Rightarrow> int \<Rightarrow> store \<Rightarrow> locals \<Rightarrow> flow_ref \<times> store" where
  "chars_loop_ref lineText tabSize0 partRendersWhitespace charBreakIndex partIndex toCharIndex \<sigma> l =
     (if int (charIndex_l l) < toCharIndex then
        (case step_ref (char_step lineText tabSize0 partRendersWhitespace) \<sigma> l of
           None \<Rightarrow> (Throw_ref, \<sigma>)
         | Some (\<sigma>1, l1) \<Rightarrow>
             (if int (charIndex_l l) \<ge> charBreakIndex then
                (case step_ref cut_ref \<sigma>1 l1 of
                   None \<Rightarrow> (Throw_ref, \<sigma>1)
                 | Some (\<sigma>2, l2) \<Rightarrow>
                     (Return_ref
                        \<lparr>charOffsetInPart_ref = charOffsetInPartArr_l l2,
                         lastRenderedPartIndex_ref = int partIndex,
                         output_ref = out_l l2\<rparr>, \<sigma>2))
              else
                chars_loop_ref lineText tabSize0 partRendersWhitespace charBreakIndex partIndex
                  toCharIndex \<sigma>1 (l1\<lparr>charIndex_l := charIndex_l l + 1\<rparr>)))
      else (Continue_ref l, \<sigma>))"
  by pat_completeness auto
termination
  by (relation "measure (\<lambda>(lineText, tabSize0, ws, charBreakIndex, partIndex, toCharIndex, \<sigma>, l).
                    nat (toCharIndex - int (charIndex_l l)))")
     (auto simp add: step_ref_def unload_def split: option.splits)

declare chars_loop_ref.simps [simp del]

text \<open>
  \<open>actualLineParts[i]\<close>, read as a token: the array is looked up, then the reference
  found at \<open>i\<close>. Lines 101 to 105 read the next token in this way.
\<close>

definition element :: "store \<Rightarrow> addr \<Rightarrow> nat \<Rightarrow> LineToken option" where
  "element \<sigma> a i =
     (case objs \<sigma> a of
        Some (TokenArr rs) \<Rightarrow>
          (if i < length rs
           then (case objs \<sigma> (rs ! i) of Some (TokenObj t) \<Rightarrow> Some t | _ \<Rightarrow> None)
           else None)
      | _ \<Rightarrow> None)"

definition toCharIndex_ref :: "store \<Rightarrow> int \<Rightarrow> addr \<Rightarrow> nat \<Rightarrow> nat \<Rightarrow> int option" where
  "toCharIndex_ref \<sigma> lineTextLength actualLineParts partIndexLen partIndex =
     (if partIndex + 1 < partIndexLen
      then (case element \<sigma> actualLineParts (partIndex + 1) of
              None \<Rightarrow> None
            | Some nextPart \<Rightarrow> Some (min lineTextLength (startIndex nextPart)))
      else Some lineTextLength)"

text \<open>
  Lines 89 to 174 on the store. The length of the array is read once, as the loop
  starts; the tokens are read as the loop comes to them, the next token after the span
  of the current one has been pushed.
\<close>

function parts_loop_ref ::
  "js_string \<Rightarrow> int \<Rightarrow> int \<Rightarrow> addr \<Rightarrow> bool \<Rightarrow> int \<Rightarrow> nat \<Rightarrow> nat \<Rightarrow> store \<Rightarrow> locals \<Rightarrow>
     flow_ref \<times> store" where
  "parts_loop_ref lineText lineTextLength tabSize0 actualLineParts renderWhitespace0
       charBreakIndex partIndexLen partIndex \<sigma> l =
     (if partIndex < partIndexLen then
        (case element \<sigma> actualLineParts partIndex of
           None \<Rightarrow> (Throw_ref, \<sigma>)
         | Some part \<Rightarrow>
             (case step_ref (open_part part) \<sigma> l of
                None \<Rightarrow> (Throw_ref, \<sigma>)
              | Some (\<sigma>1, l1) \<Rightarrow>
                  (case toCharIndex_ref \<sigma>1 lineTextLength actualLineParts partIndexLen partIndex of
                     None \<Rightarrow> (Throw_ref, \<sigma>1)
                   | Some toCharIndex \<Rightarrow>
                       (case chars_loop_ref lineText tabSize0
                               (partRendersWhitespace_of renderWhitespace0 part)
                               charBreakIndex partIndex toCharIndex \<sigma>1 l1 of
                          (Continue_ref l3, \<sigma>3) \<Rightarrow>
                            (case step_ref close_part \<sigma>3 l3 of
                               None \<Rightarrow> (Throw_ref, \<sigma>3)
                             | Some (\<sigma>4, l4) \<Rightarrow>
                                 parts_loop_ref lineText lineTextLength tabSize0 actualLineParts
                                   renderWhitespace0 charBreakIndex partIndexLen (partIndex + 1)
                                   \<sigma>4 l4)
                        | (Return_ref r, \<sigma>3) \<Rightarrow> (Return_ref r, \<sigma>3)
                        | (Throw_ref, \<sigma>3) \<Rightarrow> (Throw_ref, \<sigma>3)))))
      else (Continue_ref l, \<sigma>))"
  by pat_completeness auto
termination
  by (relation "measure (\<lambda>(lineText, lineTextLength, tabSize0, actualLineParts, rw,
                    charBreakIndex, partIndexLen, partIndex, \<sigma>, l). partIndexLen - partIndex)") auto

declare parts_loop_ref.simps [simp del]

text \<open>\<open>actualLineParts.length\<close>, and lines 175 and 179.\<close>

definition array_length :: "store \<Rightarrow> addr \<Rightarrow> nat option" where
  "array_length \<sigma> a = (case objs \<sigma> a of Some (TokenArr rs) \<Rightarrow> Some (length rs) | _ \<Rightarrow> None)"

definition finish_scan :: "scan \<Rightarrow> scan" where
  "finish_scan s =
     s\<lparr>out := out s @ [js ''</span>''],
       charOffsetInPartArr := charOffsetInPartArr s @ [charOffsetInPart' s]\<rparr>"

text \<open>
  Lines 77 to 186 on the store: the two arrays are made, the outer span is pushed, the
  loop runs, and the result refers to the two arrays.
\<close>

definition renderLineActual_ref ::
  "js_string \<Rightarrow> int \<Rightarrow> int \<Rightarrow> addr \<Rightarrow> bool \<Rightarrow> int \<Rightarrow> store \<Rightarrow>
     (error_ref + IRenderLineOutput_ref) \<times> store" where
  "renderLineActual_ref lineText lineTextLength tabSize0 actualLineParts renderWhitespace0
       charBreakIndex \<sigma> =
     (case alloc (StringArr []) \<sigma> of (out0, \<sigma>1) \<Rightarrow>
      case alloc (NumberArr []) \<sigma>1 of (arr0, \<sigma>2) \<Rightarrow>
      (let l0 = \<lparr>charIndex_l = 0, out_l = out0, charOffsetInPartArr_l = arr0,
                 charOffsetInPart_l = 0, tabsCharDelta_l = 0\<rparr>;
           \<sigma>3 = put out0 (StringArr [js ''<span>'']) \<sigma>2
       in case array_length \<sigma>3 actualLineParts of
            None \<Rightarrow> (Inl TypeError, \<sigma>3)
          | Some partIndexLen \<Rightarrow>
              (case parts_loop_ref lineText lineTextLength tabSize0 actualLineParts
                      renderWhitespace0 charBreakIndex partIndexLen 0 \<sigma>3 l0 of
                 (Return_ref r, \<sigma>4) \<Rightarrow> (Inr r, \<sigma>4)
               | (Throw_ref, \<sigma>4) \<Rightarrow> (Inl TypeError, \<sigma>4)
               | (Continue_ref l, \<sigma>4) \<Rightarrow>
                   (case step_ref finish_scan \<sigma>4 l of
                      None \<Rightarrow> (Inl TypeError, \<sigma>4)
                    | Some (\<sigma>5, l5) \<Rightarrow>
                        (case array_length \<sigma>5 actualLineParts of
                           None \<Rightarrow> (Inl TypeError, \<sigma>5)
                         | Some n \<Rightarrow>
                             (Inr \<lparr>charOffsetInPart_ref = charOffsetInPartArr_l l5,
                                   lastRenderedPartIndex_ref = int n - 1,
                                   output_ref = out_l l5\<rparr>, \<sigma>5))))))"

text \<open>Line 69, \<open>slice(0)\<close>: a new array with the same references.\<close>

definition slice0 :: "addr \<Rightarrow> store \<Rightarrow> (addr \<times> store) option" where
  "slice0 a \<sigma> =
     (case objs \<sigma> a of Some (TokenArr rs) \<Rightarrow> Some (alloc (TokenArr rs) \<sigma>) | _ \<Rightarrow> None)"

text \<open>
  Lines 48 to 70 on the store. For the empty line the result holds two new arrays; the
  scan is handed the copy of the token array, not the array of the caller.
\<close>

definition renderLine_ref ::
  "RenderLineInput_ref \<Rightarrow> store \<Rightarrow> (error_ref + IRenderLineOutput_ref) \<times> store" where
  "renderLine_ref input \<sigma> =
     (let lineText = lineContent_ref input;
          lineTextLength = int (length lineText);
          actualLineParts = parts_ref input;
          charBreakIndex =
            (if stopRenderingLineAfter_ref input = - 1 then lineTextLength
             else stopRenderingLineAfter_ref input - 1)
      in if lineTextLength = 0 then
           (case alloc (NumberArr []) \<sigma> of (arr0, \<sigma>1) \<Rightarrow>
            case alloc (StringArr [js ''<span><span>&nbsp;</span></span>'']) \<sigma>1 of (out0, \<sigma>2) \<Rightarrow>
              (Inr \<lparr>charOffsetInPart_ref = arr0, lastRenderedPartIndex_ref = 0,
                    output_ref = out0\<rparr>, \<sigma>2))
         else
           (case array_length \<sigma> actualLineParts of
              None \<Rightarrow> (Inl TypeError, \<sigma>)
            | Some n \<Rightarrow>
                if n = 0 then
                  (Inl (Thrown (Error (js ''Cannot render non empty line without line parts!''))),
                   \<sigma>)
                else
                  (case slice0 actualLineParts \<sigma> of
                     None \<Rightarrow> (Inl TypeError, \<sigma>)
                   | Some (copy, \<sigma>1) \<Rightarrow>
                       renderLineActual_ref lineText lineTextLength (tabSize_ref input) copy
                         (renderWhitespace_ref input) charBreakIndex \<sigma>1)))"

text \<open>
  What the store-based properties are stated with: a later store keeps every object of
  an earlier one; two stores differ at most in the two arrays of the scan; the array at
  an address holds references to given tokens; nothing is stored at an address that is
  not in use; the result and the input as values.
\<close>

definition kept :: "store \<Rightarrow> store \<Rightarrow> bool" where
  "kept \<sigma>0 \<sigma> \<longleftrightarrow> lim \<sigma>0 \<le> lim \<sigma> \<and> (\<forall>a<lim \<sigma>0. objs \<sigma> a = objs \<sigma>0 a)"

definition same_but :: "locals \<Rightarrow> store \<Rightarrow> store \<Rightarrow> bool" where
  "same_but l \<sigma> \<sigma>' \<longleftrightarrow>
     lim \<sigma>' = lim \<sigma> \<and>
     (\<forall>a. a \<noteq> out_l l \<and> a \<noteq> charOffsetInPartArr_l l \<longrightarrow> objs \<sigma>' a = objs \<sigma> a)"

definition holds_tokens :: "store \<Rightarrow> addr \<Rightarrow> LineToken list \<Rightarrow> bool" where
  "holds_tokens \<sigma> a ps \<longleftrightarrow>
     (\<exists>rs. objs \<sigma> a = Some (TokenArr rs) \<and> length rs = length ps \<and>
        (\<forall>i<length rs. objs \<sigma> (rs ! i) = Some (TokenObj (ps ! i))))"

definition unused_above :: "store \<Rightarrow> bool" where
  "unused_above \<sigma> \<longleftrightarrow> (\<forall>a\<ge>lim \<sigma>. objs \<sigma> a = None)"

definition deref :: "store \<Rightarrow> IRenderLineOutput_ref \<Rightarrow> IRenderLineOutput option" where
  "deref \<sigma> r =
     (case (objs \<sigma> (output_ref r), objs \<sigma> (charOffsetInPart_ref r)) of
        (Some (StringArr fragments), Some (NumberArr offsets)) \<Rightarrow>
          Some \<lparr>charOffsetInPart = offsets,
                lastRenderedPartIndex = lastRenderedPartIndex_ref r,
                output = fragments\<rparr>
      | _ \<Rightarrow> None)"

definition value_of :: "RenderLineInput_ref \<Rightarrow> LineToken list \<Rightarrow> RenderLineInput" where
  "value_of input ps =
     \<lparr>lineContent = lineContent_ref input, tabSize = tabSize_ref input,
      stopRenderingLineAfter = stopRenderingLineAfter_ref input,
      renderWhitespace = renderWhitespace_ref input, parts = ps\<rparr>"

subsection \<open>Example inputs\<close>

text \<open>The line \<open>a<TAB>b\<close> as one token of type \<open>text\<close>, tab size 4, no limit.\<close>

definition example_a_tab_b :: RenderLineInput where
  "example_a_tab_b =
     \<lparr>lineContent = js ''a'' @ [c_tab] @ js ''b'', tabSize = 4, stopRenderingLineAfter = - 1,
      renderWhitespace = False, parts = [\<lparr>startIndex = 0, type = js ''text''\<rparr>]\<rparr>"

text \<open>The line \<open>ab<c\<close> in two tokens, the second from offset 2, cut after 3 characters.\<close>

definition example_cut :: RenderLineInput where
  "example_cut =
     \<lparr>lineContent = js ''ab<c'', tabSize = 4, stopRenderingLineAfter = 3,
      renderWhitespace = False,
      parts = [\<lparr>startIndex = 0, type = js ''x''\<rparr>, \<lparr>startIndex = 2, type = js ''y''\<rparr>]\<rparr>"

text \<open>
  The variables of the scan of \<open>a<TAB>b\<close> as it comes to the tab, and as it comes to
  the \<open><\<close> of \<open>ab<c\<close>.
\<close>

definition example_tab_state :: scan where
  \<open>example_tab_state =
     \<lparr>charIndex = 1,
      out = [js ''<span>'', js ''<span class="token '', js ''text'', js ''">'', js ''a''],
      charOffsetInPartArr = [0], charOffsetInPart' = 1, tabsCharDelta = 0\<rparr>\<close>

definition example_lt_state :: scan where
  \<open>example_lt_state =
     \<lparr>charIndex = 2,
      out = [js ''<span>'', js ''<span class="token '', js ''x'', js ''">'', js ''a'', js ''b'',
             js ''</span>'', js ''<span class="token '', js ''y'', js ''">''],
      charOffsetInPartArr = [0, 1], charOffsetInPart' = 0, tabsCharDelta = 0\<rparr>\<close>

text \<open>The line \<open>abc\<close> in two tokens, the second from offset 2, with no limit.\<close>

definition example_two_tokens :: RenderLineInput where
  "example_two_tokens =
     \<lparr>lineContent = js ''abc'', tabSize = 4, stopRenderingLineAfter = - 1,
      renderWhitespace = False,
      parts = [\<lparr>startIndex = 0, type = js ''x''\<rparr>, \<lparr>startIndex = 2, type = js ''y''\<rparr>]\<rparr>"

text \<open>
  A tab and a \<open><\<close> as one whitespace token, with tab size 1, a limit of 0 and the
  whitespace flag on.
\<close>

definition example_degenerate :: RenderLineInput where
  "example_degenerate =
     \<lparr>lineContent = [c_tab] @ js ''<'', tabSize = 1, stopRenderingLineAfter = 0,
      renderWhitespace = True, parts = [\<lparr>startIndex = 0, type = js ''whitespace''\<rparr>]\<rparr>"

text \<open>The tokens of \<open>example_cut\<close> in a store, and the input that refers to them.\<close>

definition example_store :: store where
  "example_store =
     \<lparr>objs = [0 \<mapsto> TokenArr [1, 2],
              1 \<mapsto> TokenObj \<lparr>startIndex = 0, type = js ''x''\<rparr>,
              2 \<mapsto> TokenObj \<lparr>startIndex = 2, type = js ''y''\<rparr>],
      lim = 3\<rparr>"

definition example_cut_ref :: RenderLineInput_ref where
  "example_cut_ref =
     \<lparr>lineContent_ref = js ''ab<c'', tabSize_ref = 4, stopRenderingLineAfter_ref = 3,
      renderWhitespace_ref = False, parts_ref = 0\<rparr>"

section \<open>Properties\<close>

subsection \<open>Evaluation\<close>

lemmas eval_defs = renderLine_def renderLineActual_def charBreakIndex_of_def initial_scan_def
  parts_loop.simps chars_loop.simps open_part_def close_part_def toCharIndex_of_def
  partRendersWhitespace_of_def char_step_def switch_charCode_def case_tab_def push_nbsp.simps
  insertSpacesCount_def js_rem_def array_set_def incr_last_def charCodeAt_def charAt_def js_def
  c_tab_def c_space_def c_lowerThan_def c_greaterThan_def c_ampersand_def c_bom_def
  c_lineSeparator_def c_carriageReturn_def Let_def

subsection \<open>One character\<close>

lemma push_nbsp_eq: "push_nbsp out0 n = out0 @ replicate (nat n) (js ''&nbsp;'')"
proof (induction out0 n rule: push_nbsp.induct)
  case (1 out0 n)
  show ?case
  proof (cases "n > 0")
    case True
    then have "nat n = Suc (nat (n - 1))" by simp
    with True 1 show ?thesis
      by (subst push_nbsp.simps) (simp add: replicate_app_Cons_same)
  next
    case False
    then show ?thesis by (subst push_nbsp.simps) simp
  qed
qed

lemma js_rem_nonneg: "0 \<le> a \<Longrightarrow> 0 < b \<Longrightarrow> js_rem a b = a mod b"
  by (cases "a = 0") (simp_all add: js_rem_def)

lemma js_rem_bounds: "0 < b \<Longrightarrow> - b < js_rem a b \<and> js_rem a b < b"
proof -
  assume b: "0 < b"
  have m: "0 \<le> \<bar>a\<bar> mod b \<and> \<bar>a\<bar> mod b < b"
    using b by simp
  consider "a < 0" | "a = 0" | "0 < a" by linarith
  then show ?thesis
  proof cases
    case 1
    with b have "js_rem a b = - (\<bar>a\<bar> mod b)" by (simp add: js_rem_def)
    with m b show ?thesis by linarith
  next
    case 2 with b show ?thesis by (simp add: js_rem_def)
  next
    case 3
    with b have "js_rem a b = \<bar>a\<bar> mod b" by (simp add: js_rem_def)
    with m b show ?thesis by linarith
  qed
qed

lemma case_tab_charIndex [simp]: "charIndex (case_tab t w s) = charIndex s"
  by (simp add: case_tab_def Let_def)

lemma case_tab_arr [simp]: "charOffsetInPartArr (case_tab t w s) = charOffsetInPartArr s"
  by (simp add: case_tab_def Let_def)

lemma switch_charIndex [simp]: "charIndex (switch_charCode L t w s) = charIndex s"
  by (simp add: switch_charCode_def Let_def)

lemma switch_arr [simp]: "charOffsetInPartArr (switch_charCode L t w s) = charOffsetInPartArr s"
  by (simp add: switch_charCode_def Let_def)

lemma char_step_charIndex [simp]: "charIndex (char_step L t w s) = charIndex s"
  by (simp add: char_step_def Let_def)

lemma char_step_arr:
  "charOffsetInPartArr (char_step L t w s) =
     array_set (charOffsetInPartArr s) (charIndex s) (charOffsetInPart' s)"
  by (simp add: char_step_def Let_def)

lemma char_step_arr_inv:
  "length (charOffsetInPartArr s) = charIndex s \<Longrightarrow>
   charOffsetInPartArr (char_step L t w s) = charOffsetInPartArr s @ [charOffsetInPart' s]"
  by (simp add: char_step_arr array_set_def)

lemma incr_last_snoc [simp]: "incr_last (a @ [v]) = a @ [v + 1]"
  by (simp add: incr_last_def nth_append)

lemma insertSpacesCount_pos: "1 \<le> t \<Longrightarrow> 1 \<le> insertSpacesCount t i d"
  using js_rem_bounds [of t "int i + d"] by (simp add: insertSpacesCount_def)

lemma insertSpacesCount_mod:
  "1 \<le> t \<Longrightarrow> 0 \<le> d \<Longrightarrow> insertSpacesCount t i d = t - (int i + d) mod t"
  by (simp add: insertSpacesCount_def js_rem_nonneg)

lemma insertSpacesCount_le: "1 \<le> t \<Longrightarrow> 0 \<le> d \<Longrightarrow> insertSpacesCount t i d \<le> t"
  by (simp add: insertSpacesCount_mod)

lemma case_tab_out:
  "1 \<le> t \<Longrightarrow>
   out (case_tab t w s) =
     out s @ (if w then js ''&rarr;'' else js ''&nbsp;'') #
       replicate (nat (insertSpacesCount t (charIndex s) (tabsCharDelta s) - 1)) (js ''&nbsp;'')"
  using insertSpacesCount_pos [of t "charIndex s" "tabsCharDelta s"]
  by (simp add: case_tab_def Let_def push_nbsp_eq)

lemma case_tab_out_any:
  "\<exists>fs. out (case_tab t w s) = out s @ fs \<and> set fs \<subseteq> {js ''&rarr;'', js ''&nbsp;''}"
  by (auto simp add: case_tab_def Let_def push_nbsp_eq)

lemma switch_out_any:
  "\<exists>fs. out (switch_charCode L t w s) = out s @ fs \<and> set fs \<inter> marked = {}"
proof (cases "charCodeAt L (charIndex s) = Some c_tab")
  case True
  obtain fs where "out (case_tab t w s) = out s @ fs" "set fs \<subseteq> {js ''&rarr;'', js ''&nbsp;''}"
    using case_tab_out_any by blast
  moreover have "{js ''&rarr;'', js ''&nbsp;''} \<inter> marked = {}"
    by (simp add: marked_def js_def)
  ultimately show ?thesis using True by (auto simp add: switch_charCode_def)
next
  case False
  then show ?thesis
    by (auto simp add: switch_charCode_def Let_def marked_def js_def charCodeAt_def charAt_def
        c_lowerThan_def c_greaterThan_def c_ampersand_def split: if_splits)
qed

lemma char_step_out_any:
  "\<exists>fs. out (char_step L t w s) = out s @ fs \<and> set fs \<inter> marked = {}"
  using switch_out_any [of L t w "s\<lparr>charOffsetInPartArr :=
      array_set (charOffsetInPartArr s) (charIndex s) (charOffsetInPart' s)\<rparr>"]
  by (simp add: char_step_def Let_def)

lemma case_tab_delta:
  "tabsCharDelta (case_tab t w s) =
     tabsCharDelta s + (insertSpacesCount t (charIndex s) (tabsCharDelta s) - 1)"
  by (simp add: case_tab_def Let_def)

lemma case_tab_offset:
  "charOffsetInPart' (case_tab t w s) =
     charOffsetInPart' s + (insertSpacesCount t (charIndex s) (tabsCharDelta s) - 1)"
  by (simp add: case_tab_def Let_def)

lemma switch_mono:
  "1 \<le> t \<Longrightarrow>
   tabsCharDelta s \<le> tabsCharDelta (switch_charCode L t w s) \<and>
   charOffsetInPart' s \<le> charOffsetInPart' (switch_charCode L t w s)"
  using insertSpacesCount_pos [of t "charIndex s" "tabsCharDelta s"]
  by (simp add: switch_charCode_def Let_def case_tab_delta case_tab_offset)

lemma char_step_mono:
  "1 \<le> t \<Longrightarrow>
   tabsCharDelta s \<le> tabsCharDelta (char_step L t w s) \<and>
   charOffsetInPart' s < charOffsetInPart' (char_step L t w s)"
  using switch_mono [of t "s\<lparr>charOffsetInPartArr :=
      array_set (charOffsetInPartArr s) (charIndex s) (charOffsetInPart' s)\<rparr>" L w]
  by (simp add: char_step_def Let_def)

subsection \<open>The loop over the characters\<close>

lemma chars_loop_Continue:
  "chars_loop L t w cbi p to s = Continue s' \<Longrightarrow>
     int (charIndex s') = max (int (charIndex s)) to \<and>
     (to \<le> int (charIndex s) \<or> to \<le> cbi) \<and>
     (\<exists>fs. out s' = out s @ fs \<and> set fs \<inter> marked = {}) \<and>
     (length (charOffsetInPartArr s) = charIndex s \<longrightarrow>
        length (charOffsetInPartArr s') = charIndex s' \<and>
        (\<exists>ys. charOffsetInPartArr s' = charOffsetInPartArr s @ ys)) \<and>
     (1 \<le> t \<longrightarrow> tabsCharDelta s \<le> tabsCharDelta s' \<and>
        charOffsetInPart' s \<le> charOffsetInPart' s')"
proof (induction L t w cbi p to s arbitrary: s' rule: chars_loop.induct)
  case (1 L t w cbi p to s)
  show ?case
  proof (cases "int (charIndex s) < to")
    case False
    with "1.prems" have "s' = s" by (subst (asm) chars_loop.simps) simp
    with False show ?thesis by simp
  next
    case lt: True
    show ?thesis
    proof (cases "cbi \<le> int (charIndex s)")
      case True
      with lt "1.prems" show ?thesis by (subst (asm) chars_loop.simps) simp
    next
      case False
      let ?s1 = "(char_step L t w s)\<lparr>charIndex := charIndex s + 1\<rparr>"
      from lt False "1.prems" have run: "chars_loop L t w cbi p to ?s1 = Continue s'"
        by (subst (asm) chars_loop.simps) simp
      from False have nb: "\<not> cbi \<le> int (charIndex s)" .
      note IH = "1.IH" [OF lt nb run]
      obtain fs1 where fs1: "out (char_step L t w s) = out s @ fs1" "set fs1 \<inter> marked = {}"
        using char_step_out_any by blast
      from IH obtain fs2 where fs2: "out s' = out ?s1 @ fs2" "set fs2 \<inter> marked = {}"
        by auto
      have o: "\<exists>fs. out s' = out s @ fs \<and> set fs \<inter> marked = {}"
        using fs1 fs2 by (intro exI [of _ "fs1 @ fs2"]) auto
      have i: "int (charIndex s') = max (int (charIndex s)) to"
        using IH lt by simp
      have c: "to \<le> int (charIndex s) \<or> to \<le> cbi"
        using IH lt nb by auto
      have a: "length (charOffsetInPartArr s) = charIndex s \<longrightarrow>
        length (charOffsetInPartArr s') = charIndex s' \<and>
        (\<exists>ys. charOffsetInPartArr s' = charOffsetInPartArr s @ ys)"
        using IH by (auto simp add: char_step_arr_inv)
      have m: "1 \<le> t \<longrightarrow> tabsCharDelta s \<le> tabsCharDelta s' \<and>
        charOffsetInPart' s \<le> charOffsetInPart' s'"
        using IH char_step_mono [of t s L w] by auto
      from i c o a m show ?thesis by blast
    qed
  qed
qed

lemma chars_loop_Return:
  "chars_loop L t w cbi p to s = Return r \<Longrightarrow>
     lastRenderedPartIndex r = int p \<and>
     max (int (charIndex s)) cbi < to \<and>
     (\<exists>sb. int (charIndex sb) = max (int (charIndex s)) cbi \<and>
        output r = out (char_step L t w sb) @ [js ''&hellip;</span></span>''] \<and>
        charOffsetInPart r = incr_last (charOffsetInPartArr (char_step L t w sb)) \<and>
        (\<exists>fs. out sb = out s @ fs \<and> set fs \<inter> marked = {}) \<and>
        (length (charOffsetInPartArr s) = charIndex s \<longrightarrow>
           length (charOffsetInPartArr sb) = charIndex sb))"
proof (induction L t w cbi p to s arbitrary: r rule: chars_loop.induct)
  case (1 L t w cbi p to s)
  show ?case
  proof (cases "int (charIndex s) < to")
    case False
    with "1.prems" show ?thesis by (subst (asm) chars_loop.simps) simp
  next
    case lt: True
    show ?thesis
    proof (cases "cbi \<le> int (charIndex s)")
      case True
      with lt "1.prems" have r: "r = \<lparr>charOffsetInPart =
                incr_last (charOffsetInPartArr (char_step L t w s)),
              lastRenderedPartIndex = int p,
              output = out (char_step L t w s) @ [js ''&hellip;</span></span>'']\<rparr>"
        by (subst (asm) chars_loop.simps) simp
      have "int (charIndex s) = max (int (charIndex s)) cbi \<and>
        output r = out (char_step L t w s) @ [js ''&hellip;</span></span>''] \<and>
        charOffsetInPart r = incr_last (charOffsetInPartArr (char_step L t w s)) \<and>
        (\<exists>fs. out s = out s @ fs \<and> set fs \<inter> marked = {}) \<and>
        (length (charOffsetInPartArr s) = charIndex s \<longrightarrow>
           length (charOffsetInPartArr s) = charIndex s)"
        using True r by simp
      then show ?thesis using r lt True by (intro conjI exI [of _ s]) simp_all
    next
      case False
      let ?s1 = "(char_step L t w s)\<lparr>charIndex := charIndex s + 1\<rparr>"
      from lt False "1.prems" have run: "chars_loop L t w cbi p to ?s1 = Return r"
        by (subst (asm) chars_loop.simps) simp
      from False have nb: "\<not> cbi \<le> int (charIndex s)" .
      note IH = "1.IH" [OF lt nb run]
      from IH obtain sb where sb:
        "int (charIndex sb) = max (int (charIndex ?s1)) cbi"
        "output r = out (char_step L t w sb) @ [js ''&hellip;</span></span>'']"
        "charOffsetInPart r = incr_last (charOffsetInPartArr (char_step L t w sb))"
        "\<exists>fs. out sb = out ?s1 @ fs \<and> set fs \<inter> marked = {}"
        "length (charOffsetInPartArr ?s1) = charIndex ?s1 \<longrightarrow>
           length (charOffsetInPartArr sb) = charIndex sb"
        by blast
      obtain fs1 where fs1: "out (char_step L t w s) = out s @ fs1" "set fs1 \<inter> marked = {}"
        using char_step_out_any by blast
      from sb(4) obtain fs2 where fs2: "out sb = out ?s1 @ fs2" "set fs2 \<inter> marked = {}"
        by blast
      have o: "\<exists>fs. out sb = out s @ fs \<and> set fs \<inter> marked = {}"
        using fs1 fs2 by (intro exI [of _ "fs1 @ fs2"]) auto
      have i: "int (charIndex sb) = max (int (charIndex s)) cbi"
        using sb(1) nb by simp
      have a: "length (charOffsetInPartArr s) = charIndex s \<longrightarrow>
           length (charOffsetInPartArr sb) = charIndex sb"
        using sb(5) by (simp add: char_step_arr_inv)
      have m: "max (int (charIndex s)) cbi < to" using IH nb by simp
      from IH have l: "lastRenderedPartIndex r = int p" by simp
      show ?thesis using l m i sb(2,3) o a by blast
    qed
  qed
qed

lemma chars_loop_flow:
  "(\<exists>r. chars_loop L t w cbi p to s = Return r) \<longleftrightarrow> max (int (charIndex s)) cbi < to"
proof
  assume "\<exists>r. chars_loop L t w cbi p to s = Return r"
  then show "max (int (charIndex s)) cbi < to" using chars_loop_Return by blast
next
  assume m: "max (int (charIndex s)) cbi < to"
  show "\<exists>r. chars_loop L t w cbi p to s = Return r"
  proof (cases "chars_loop L t w cbi p to s")
    case (Return r)
    then show ?thesis by blast
  next
    case (Continue s')
    from chars_loop_Continue [OF this] m show ?thesis by simp
  qed
qed

lemma cut_short_ext: "cut_short r fragments offsets \<Longrightarrow> cut_short r (fragments @ fs') (offsets @ ys')"
  unfolding cut_short_def by fastforce

lemma chars_loop_no_break:
  "chars_loop L t w cbi p to s = Continue s' \<Longrightarrow> to \<le> cbi' \<Longrightarrow>
   chars_loop L t w cbi' p' to s = Continue s'"
proof (induction L t w cbi p to s arbitrary: s' rule: chars_loop.induct)
  case (1 L t w cbi p to s)
  show ?case
  proof (cases "int (charIndex s) < to")
    case False
    with "1.prems" have "s' = s" by (subst (asm) chars_loop.simps) simp
    with False show ?thesis by (subst chars_loop.simps) simp
  next
    case lt: True
    show ?thesis
    proof (cases "cbi \<le> int (charIndex s)")
      case True
      with lt "1.prems" show ?thesis by (subst (asm) chars_loop.simps) simp
    next
      case False
      let ?s1 = "(char_step L t w s)\<lparr>charIndex := charIndex s + 1\<rparr>"
      from lt False "1.prems" have run: "chars_loop L t w cbi p to ?s1 = Continue s'"
        by (subst (asm) chars_loop.simps) simp
      from False have nb: "\<not> cbi \<le> int (charIndex s)" .
      have "chars_loop L t w cbi' p' to ?s1 = Continue s'"
        using "1.IH" [OF lt nb run] "1.prems"(2) by simp
      moreover have "\<not> cbi' \<le> int (charIndex s)" using lt "1.prems"(2) by simp
      ultimately show ?thesis using lt by (subst chars_loop.simps) simp
    qed
  qed
qed

lemma chars_loop_cut_short:
  "chars_loop L t w cbi p to s = Return r \<Longrightarrow> to \<le> cbi' \<Longrightarrow>
   length (charOffsetInPartArr s) = charIndex s \<Longrightarrow>
   \<exists>sF. chars_loop L t w cbi' p' to s = Continue sF \<and>
        cut_short r (out sF) (charOffsetInPartArr sF)"
proof (induction L t w cbi p to s arbitrary: r rule: chars_loop.induct)
  case (1 L t w cbi p to s)
  let ?s1 = "(char_step L t w s)\<lparr>charIndex := charIndex s + 1\<rparr>"
  have inv1: "length (charOffsetInPartArr ?s1) = charIndex ?s1"
    using "1.prems"(3) by (simp add: char_step_arr_inv)
  show ?case
  proof (cases "int (charIndex s) < to")
    case False
    with "1.prems" show ?thesis by (subst (asm) chars_loop.simps) simp
  next
    case lt: True
    then have nb': "\<not> cbi' \<le> int (charIndex s)" using "1.prems"(2) by simp
    have unf: "chars_loop L t w cbi' p' to s = chars_loop L t w cbi' p' to ?s1"
      using lt nb' by (subst chars_loop.simps) simp
    show ?thesis
    proof (cases "cbi \<le> int (charIndex s)")
      case True
      with lt "1.prems" have r: "r = \<lparr>charOffsetInPart =
                incr_last (charOffsetInPartArr (char_step L t w s)),
              lastRenderedPartIndex = int p,
              output = out (char_step L t w s) @ [js ''&hellip;</span></span>'']\<rparr>"
        by (subst (asm) chars_loop.simps) simp
      have "\<not> (\<exists>r'. chars_loop L t w cbi' p' to ?s1 = Return r')"
        using "1.prems"(2) by (simp add: chars_loop_flow)
      then obtain sF where sF: "chars_loop L t w cbi' p' to ?s1 = Continue sF"
        by (cases "chars_loop L t w cbi' p' to ?s1") auto
      from chars_loop_Continue [OF sF] inv1 obtain fs ys where
        e: "out sF = out ?s1 @ fs" "charOffsetInPartArr sF = charOffsetInPartArr ?s1 @ ys"
        by blast
      have "cut_short r (out sF) (charOffsetInPartArr sF)"
        unfolding cut_short_def using e r "1.prems"(3)
        by (simp add: char_step_arr_inv)
      with sF unf show ?thesis by simp
    next
      case False
      from lt False "1.prems" have run: "chars_loop L t w cbi p to ?s1 = Return r"
        by (subst (asm) chars_loop.simps) simp
      from False have nb: "\<not> cbi \<le> int (charIndex s)" .
      from "1.IH" [OF lt nb run "1.prems"(2) inv1] unf show ?thesis by simp
    qed
  qed
qed

subsection \<open>The loop over the tokens\<close>

lemma toCharIndex_of_le: "toCharIndex_of len ps p \<le> len"
  by (simp add: toCharIndex_of_def)

lemma toCharIndex_of_last: "p + 1 = length ps \<Longrightarrow> toCharIndex_of len ps p = len"
  by (simp add: toCharIndex_of_def)

lemma open_part_fields [simp]:
  "charIndex (open_part q s) = charIndex s"
  "charOffsetInPartArr (open_part q s) = charOffsetInPartArr s"
  "tabsCharDelta (open_part q s) = tabsCharDelta s"
  "charOffsetInPart' (open_part q s) = 0"
  by (simp_all add: open_part_def)

lemma close_part_fields [simp]:
  "charIndex (close_part s) = charIndex s"
  "charOffsetInPartArr (close_part s) = charOffsetInPartArr s"
  "tabsCharDelta (close_part s) = tabsCharDelta s"
  "charOffsetInPart' (close_part s) = charOffsetInPart' s"
  "out (close_part s) = out s @ [js ''</span>'']"
  by (simp_all add: close_part_def)

lemma open_part_out:
  \<open>out (open_part q s) = out s @ [js ''<span class="token '', type q, js ''">'']\<close>
  by (simp add: open_part_def)

lemma markup_not_marked:
  \<open>js ''<span class="token '' \<notin> marked\<close> \<open>js ''">'' \<notin> marked\<close> \<open>js ''</span>'' \<notin> marked\<close>
  \<open>js ''<span>'' \<notin> marked\<close>
  by (simp_all add: marked_def js_def)

lemma parts_loop_unfold:
  "p < length ps \<Longrightarrow>
   parts_loop L len t ps rw cbi p s =
     (case chars_loop L t (partRendersWhitespace_of rw (ps ! p)) cbi p
             (toCharIndex_of len ps p) (open_part (ps ! p) s) of
        Return r \<Rightarrow> Return r
      | Continue s3 \<Rightarrow> parts_loop L len t ps rw cbi (p + 1) (close_part s3))"
  by (subst parts_loop.simps) simp

lemma parts_loop_done: "\<not> p < length ps \<Longrightarrow> parts_loop L len t ps rw cbi p s = Continue s"
  by (subst parts_loop.simps) simp

lemma parts_loop_Continue:
  "parts_loop L len t ps rw cbi p s = Continue s' \<Longrightarrow>
     (p < length ps \<longrightarrow>
        int (charIndex s') = max (int (charIndex s)) len \<and>
        (len \<le> int (charIndex s) \<or> len \<le> cbi)) \<and>
     (\<exists>fs. out s' = out s @ fs \<and> set fs \<inter> marked \<subseteq> type ` set ps) \<and>
     (length (charOffsetInPartArr s) = charIndex s \<longrightarrow>
        length (charOffsetInPartArr s') = charIndex s' \<and>
        (\<exists>ys. charOffsetInPartArr s' = charOffsetInPartArr s @ ys)) \<and>
     (1 \<le> t \<longrightarrow> tabsCharDelta s \<le> tabsCharDelta s')"
proof (induction L len t ps rw cbi p s arbitrary: s' rule: parts_loop.induct)
  case (1 L len t ps rw cbi p s)
  show ?case
  proof (cases "p < length ps")
    case False
    with "1.prems" have "s' = s" by (simp add: parts_loop_done)
    with False show ?thesis by simp
  next
    case lt: True
    let ?w = "partRendersWhitespace_of rw (ps ! p)"
    let ?to = "toCharIndex_of len ps p"
    let ?s0 = "open_part (ps ! p) s"
    from "1.prems" lt obtain s3 where
      c: "chars_loop L t ?w cbi p ?to ?s0 = Continue s3" and
      run: "parts_loop L len t ps rw cbi (p + 1) (close_part s3) = Continue s'"
      by (auto simp add: parts_loop_unfold split: flow.splits)
    note IH = "1.IH" [OF lt c run]
    note C = chars_loop_Continue [OF c]
    from C obtain fs1 where fs1: "out s3 = out ?s0 @ fs1" "set fs1 \<inter> marked = {}"
      by blast
    from IH obtain fs2 where
      fs2: "out s' = out (close_part s3) @ fs2" "set fs2 \<inter> marked \<subseteq> type ` set ps"
      by blast
    have tp: "type (ps ! p) \<in> type ` set ps" using lt by simp
    have o: "\<exists>fs. out s' = out s @ fs \<and> set fs \<inter> marked \<subseteq> type ` set ps"
      using fs1 fs2 tp markup_not_marked
      by (intro exI [of _ "[js ''<span class=\"token '', type (ps ! p), js ''\">''] @ fs1 @
            [js ''</span>''] @ fs2"]) (auto simp add: open_part_out)
    have a: "length (charOffsetInPartArr s) = charIndex s \<longrightarrow>
        length (charOffsetInPartArr s') = charIndex s' \<and>
        (\<exists>ys. charOffsetInPartArr s' = charOffsetInPartArr s @ ys)"
      using IH C by auto
    have m: "1 \<le> t \<longrightarrow> tabsCharDelta s \<le> tabsCharDelta s'"
      using IH C by auto
    have i: "int (charIndex s') = max (int (charIndex s)) len \<and>
        (len \<le> int (charIndex s) \<or> len \<le> cbi)"
    proof (cases "p + 1 < length ps")
      case True
      with IH C toCharIndex_of_le [of len ps p] show ?thesis by auto
    next
      case False
      with lt have "p + 1 = length ps" by simp
      then have "?to = len" by (rule toCharIndex_of_last)
      moreover from False run have "s' = close_part s3" by (simp add: parts_loop_done)
      ultimately show ?thesis using C by auto
    qed
    from i o a m show ?thesis by blast
  qed
qed

lemma parts_loop_Return:
  "parts_loop L len t ps rw cbi p s = Return r \<Longrightarrow>
     \<exists>k sb. p \<le> k \<and> k < length ps \<and> lastRenderedPartIndex r = int k \<and>
       (\<forall>j. p \<le> j \<and> j < k \<longrightarrow> toCharIndex_of len ps j \<le> max (int (charIndex s)) cbi) \<and>
       max (int (charIndex s)) cbi < toCharIndex_of len ps k \<and>
       int (charIndex sb) = max (int (charIndex s)) cbi \<and>
       output r = out (char_step L t (partRendersWhitespace_of rw (ps ! k)) sb) @
                    [js ''&hellip;</span></span>''] \<and>
       charOffsetInPart r =
         incr_last (charOffsetInPartArr (char_step L t (partRendersWhitespace_of rw (ps ! k)) sb)) \<and>
       (\<exists>fs. out sb = out s @ fs \<and> set fs \<inter> marked \<subseteq> type ` set (take (Suc k) ps)) \<and>
       (length (charOffsetInPartArr s) = charIndex s \<longrightarrow>
          length (charOffsetInPartArr sb) = charIndex sb)"
proof (induction L len t ps rw cbi p s arbitrary: r rule: parts_loop.induct)
  case (1 L len t ps rw cbi p s)
  show ?case
  proof (cases "p < length ps")
    case False
    with "1.prems" show ?thesis by (simp add: parts_loop_done)
  next
    case lt: True
    let ?w = "partRendersWhitespace_of rw (ps ! p)"
    let ?to = "toCharIndex_of len ps p"
    let ?s0 = "open_part (ps ! p) s"
    have tp: "type (ps ! p) \<in> type ` set (take (Suc p) ps)"
      using lt by (simp add: take_Suc_conv_app_nth)
    show ?thesis
    proof (cases "chars_loop L t ?w cbi p ?to ?s0")
      case (Return r')
      with "1.prems" lt have r': "r' = r" by (simp add: parts_loop_unfold)
      from chars_loop_Return [OF Return] r' obtain sb where sb:
        "lastRenderedPartIndex r = int p"
        "max (int (charIndex s)) cbi < ?to"
        "int (charIndex sb) = max (int (charIndex s)) cbi"
        "output r = out (char_step L t ?w sb) @ [js ''&hellip;</span></span>'']"
        "charOffsetInPart r = incr_last (charOffsetInPartArr (char_step L t ?w sb))"
        "\<exists>fs. out sb = out ?s0 @ fs \<and> set fs \<inter> marked = {}"
        "length (charOffsetInPartArr s) = charIndex s \<longrightarrow>
           length (charOffsetInPartArr sb) = charIndex sb"
        by auto
      from sb(6) obtain fs1 where fs1: "out sb = out ?s0 @ fs1" "set fs1 \<inter> marked = {}"
        by blast
      have o: "\<exists>fs. out sb = out s @ fs \<and> set fs \<inter> marked \<subseteq> type ` set (take (Suc p) ps)"
        using fs1 tp markup_not_marked
        by (intro exI [of _ "[js ''<span class=\"token '', type (ps ! p), js ''\">''] @ fs1"])
           (auto simp add: open_part_out)
      show ?thesis
        using lt sb(1-5,7) o by (intro exI [of _ p] exI [of _ sb]) simp
    next
      case (Continue s3)
      with "1.prems" lt have
        run: "parts_loop L len t ps rw cbi (p + 1) (close_part s3) = Return r"
        by (simp add: parts_loop_unfold)
      note C = chars_loop_Continue [OF Continue]
      have mx: "max (int (charIndex (close_part s3))) cbi = max (int (charIndex s)) cbi"
        using C by auto
      have top: "?to \<le> max (int (charIndex s)) cbi" using C by auto
      from C obtain fs1 where fs1: "out s3 = out ?s0 @ fs1" "set fs1 \<inter> marked = {}"
        by blast
      from "1.IH" [OF lt Continue run] mx obtain k sb where ksb:
        "p + 1 \<le> k" "k < length ps" "lastRenderedPartIndex r = int k"
        "\<forall>j. p + 1 \<le> j \<and> j < k \<longrightarrow> toCharIndex_of len ps j \<le> max (int (charIndex s)) cbi"
        "max (int (charIndex s)) cbi < toCharIndex_of len ps k"
        "int (charIndex sb) = max (int (charIndex s)) cbi"
        "output r = out (char_step L t (partRendersWhitespace_of rw (ps ! k)) sb) @
                    [js ''&hellip;</span></span>'']"
        "charOffsetInPart r =
         incr_last (charOffsetInPartArr (char_step L t (partRendersWhitespace_of rw (ps ! k)) sb))"
        "\<exists>fs. out sb = out (close_part s3) @ fs \<and>
           set fs \<inter> marked \<subseteq> type ` set (take (Suc k) ps)"
        "length (charOffsetInPartArr (close_part s3)) = charIndex (close_part s3) \<longrightarrow>
          length (charOffsetInPartArr sb) = charIndex sb"
        by auto
      from ksb(9) obtain fs2 where
        fs2: "out sb = out (close_part s3) @ fs2"
             "set fs2 \<inter> marked \<subseteq> type ` set (take (Suc k) ps)"
        by blast
      have sub: "set (take (Suc p) ps) \<subseteq> set (take (Suc k) ps)"
        using ksb(1) by (intro set_take_subset_set_take) simp
      have o: "\<exists>fs. out sb = out s @ fs \<and> set fs \<inter> marked \<subseteq> type ` set (take (Suc k) ps)"
        using fs1 fs2 tp sub markup_not_marked
        by (intro exI [of _ "[js ''<span class=\"token '', type (ps ! p), js ''\">''] @ fs1 @
            [js ''</span>''] @ fs2"]) (auto simp add: open_part_out)
      have j: "\<forall>j. p \<le> j \<and> j < k \<longrightarrow> toCharIndex_of len ps j \<le> max (int (charIndex s)) cbi"
      proof (intro allI impI)
        fix j assume "p \<le> j \<and> j < k"
        then consider "j = p" | "p + 1 \<le> j \<and> j < k" by linarith
        then show "toCharIndex_of len ps j \<le> max (int (charIndex s)) cbi"
          using top ksb(4) by cases auto
      qed
      have a: "length (charOffsetInPartArr s) = charIndex s \<longrightarrow>
          length (charOffsetInPartArr sb) = charIndex sb"
        using ksb(10) C by simp
      have pk: "p \<le> k" using ksb(1) by simp
      show ?thesis
        using pk ksb(2,3) j ksb(5-8) o a by (intro exI [of _ k] exI [of _ sb]) simp
    qed
  qed
qed

lemma parts_loop_flow:
  assumes "p < length ps"
  shows "(\<exists>r. parts_loop L len t ps rw cbi p s = Return r) \<longleftrightarrow> max (int (charIndex s)) cbi < len"
proof
  assume "\<exists>r. parts_loop L len t ps rw cbi p s = Return r"
  then obtain r where "parts_loop L len t ps rw cbi p s = Return r" ..
  from parts_loop_Return [OF this] obtain k where
    "max (int (charIndex s)) cbi < toCharIndex_of len ps k" by blast
  with toCharIndex_of_le [of len ps k] show "max (int (charIndex s)) cbi < len" by simp
next
  assume m: "max (int (charIndex s)) cbi < len"
  show "\<exists>r. parts_loop L len t ps rw cbi p s = Return r"
  proof (cases "parts_loop L len t ps rw cbi p s")
    case (Return r)
    then show ?thesis by blast
  next
    case (Continue s')
    from parts_loop_Continue [OF this] assms m show ?thesis by simp
  qed
qed

lemma parts_loop_no_break:
  "parts_loop L len t ps rw cbi p s = Continue s' \<Longrightarrow> len \<le> cbi' \<Longrightarrow>
   parts_loop L len t ps rw cbi' p s = Continue s'"
proof (induction L len t ps rw cbi p s arbitrary: s' rule: parts_loop.induct)
  case (1 L len t ps rw cbi p s)
  show ?case
  proof (cases "p < length ps")
    case False
    with "1.prems" show ?thesis by (simp add: parts_loop_done)
  next
    case lt: True
    let ?w = "partRendersWhitespace_of rw (ps ! p)"
    let ?to = "toCharIndex_of len ps p"
    let ?s0 = "open_part (ps ! p) s"
    from "1.prems" lt obtain s3 where
      c: "chars_loop L t ?w cbi p ?to ?s0 = Continue s3" and
      run: "parts_loop L len t ps rw cbi (p + 1) (close_part s3) = Continue s'"
      by (auto simp add: parts_loop_unfold split: flow.splits)
    have "?to \<le> cbi'" using toCharIndex_of_le [of len ps p] "1.prems"(2) by simp
    from chars_loop_no_break [OF c this]
    have c': "chars_loop L t ?w cbi' p ?to ?s0 = Continue s3" .
    from "1.IH" [OF lt c run "1.prems"(2)] c' lt show ?thesis
      by (simp add: parts_loop_unfold)
  qed
qed

lemma parts_loop_cut_short:
  "parts_loop L len t ps rw cbi p s = Return r \<Longrightarrow> len \<le> cbi' \<Longrightarrow>
   length (charOffsetInPartArr s) = charIndex s \<Longrightarrow>
   \<exists>sF. parts_loop L len t ps rw cbi' p s = Continue sF \<and>
        cut_short r (out sF) (charOffsetInPartArr sF)"
proof (induction L len t ps rw cbi p s arbitrary: r rule: parts_loop.induct)
  case (1 L len t ps rw cbi p s)
  show ?case
  proof (cases "p < length ps")
    case False
    with "1.prems" show ?thesis by (simp add: parts_loop_done)
  next
    case lt: True
    let ?w = "partRendersWhitespace_of rw (ps ! p)"
    let ?to = "toCharIndex_of len ps p"
    let ?s0 = "open_part (ps ! p) s"
    have to: "?to \<le> cbi'" using toCharIndex_of_le [of len ps p] "1.prems"(2) by simp
    have inv0: "length (charOffsetInPartArr ?s0) = charIndex ?s0" using "1.prems"(3) by simp
    show ?thesis
    proof (cases "chars_loop L t ?w cbi p ?to ?s0")
      case (Return r')
      with "1.prems" lt have r': "r' = r" by (simp add: parts_loop_unfold)
      from chars_loop_cut_short [OF Return to inv0, of p] r' obtain sF1 where
        sF1: "chars_loop L t ?w cbi' p ?to ?s0 = Continue sF1"
             "cut_short r (out sF1) (charOffsetInPartArr sF1)"
        by blast
      have inv1: "length (charOffsetInPartArr (close_part sF1)) = charIndex (close_part sF1)"
        using chars_loop_Continue [OF sF1(1)] inv0 by simp
      have "\<not> (\<exists>r'. parts_loop L len t ps rw cbi' (p + 1) (close_part sF1) = Return r')"
      proof
        assume "\<exists>r'. parts_loop L len t ps rw cbi' (p + 1) (close_part sF1) = Return r'"
        then obtain r' where "parts_loop L len t ps rw cbi' (p + 1) (close_part sF1) = Return r'" ..
        from parts_loop_Return [OF this] obtain k where
          "max (int (charIndex (close_part sF1))) cbi' < toCharIndex_of len ps k" by blast
        with toCharIndex_of_le [of len ps k] "1.prems"(2) show False by simp
      qed
      then obtain sF where
        sF: "parts_loop L len t ps rw cbi' (p + 1) (close_part sF1) = Continue sF"
        by (cases "parts_loop L len t ps rw cbi' (p + 1) (close_part sF1)") auto
      from parts_loop_Continue [OF sF] inv1 obtain fs ys where
        e: "out sF = out (close_part sF1) @ fs"
           "charOffsetInPartArr sF = charOffsetInPartArr (close_part sF1) @ ys"
        by blast
      have "cut_short r (out sF) (charOffsetInPartArr sF)"
        using cut_short_ext [OF sF1(2), of "js ''</span>'' # fs" ys] e by simp
      with sF sF1(1) lt show ?thesis by (simp add: parts_loop_unfold)
    next
      case (Continue s3)
      with "1.prems" lt have
        run: "parts_loop L len t ps rw cbi (p + 1) (close_part s3) = Return r"
        by (simp add: parts_loop_unfold)
      have inv3: "length (charOffsetInPartArr (close_part s3)) = charIndex (close_part s3)"
        using chars_loop_Continue [OF Continue] inv0 by simp
      from chars_loop_no_break [OF Continue to]
      have c': "chars_loop L t ?w cbi' p ?to ?s0 = Continue s3" .
      from "1.IH" [OF lt Continue run "1.prems"(2) inv3] c' lt show ?thesis
        by (simp add: parts_loop_unfold)
    qed
  qed
qed

subsection \<open>The whole scan\<close>

lemma initial_scan_fields [simp]:
  "charIndex initial_scan = 0" "charOffsetInPartArr initial_scan = []"
  "out initial_scan = [js ''<span>'']" "tabsCharDelta initial_scan = 0"
  "charOffsetInPart' initial_scan = 0"
  by (simp_all add: initial_scan_def)

lemma renderLine_scan:
  "lineContent input \<noteq> [] \<Longrightarrow> parts input \<noteq> [] \<Longrightarrow>
   renderLine input =
     Inr (case scan_of input of
            Return r \<Rightarrow> r
          | Continue s \<Rightarrow>
              \<lparr>charOffsetInPart = charOffsetInPartArr s @ [charOffsetInPart' s],
               lastRenderedPartIndex = int (length (parts input)) - 1,
               output = out s @ [js ''</span>'']\<rparr>)"
  by (simp add: renderLine_def renderLineActual_def scan_of_def Let_def)

lemma scan_of_flow:
  assumes "parts input \<noteq> []"
  shows "(\<exists>r. scan_of input = Return r) \<longleftrightarrow>
           lineContent input \<noteq> [] \<and> charBreakIndex_of input < int (length (lineContent input))"
  using parts_loop_flow [of 0 "parts input" "lineContent input" "int (length (lineContent input))"
      "tabSize input" "renderWhitespace input" "charBreakIndex_of input" initial_scan] assms
  by (simp add: scan_of_def)

lemma charBreakIndex_of_unlimited [simp]:
  "charBreakIndex_of (input\<lparr>stopRenderingLineAfter := - 1\<rparr>) = int (length (lineContent input))"
  by (simp add: charBreakIndex_of_def)

lemma scan_of_unlimited:
  assumes "parts input \<noteq> []"
  shows "\<exists>sF. scan_of (input\<lparr>stopRenderingLineAfter := - 1\<rparr>) = Continue sF \<and>
           length (charOffsetInPartArr sF) = length (lineContent input)"
proof -
  let ?u = "input\<lparr>stopRenderingLineAfter := - 1\<rparr>"
  have "\<not> (\<exists>r. scan_of ?u = Return r)"
    using scan_of_flow [of ?u] assms by simp
  then obtain sF where sF: "scan_of ?u = Continue sF" by (cases "scan_of ?u") auto
  from parts_loop_Continue [OF sF [unfolded scan_of_def]] assms
  have "int (charIndex sF) = int (length (lineContent input))"
    and "length (charOffsetInPartArr sF) = charIndex sF"
    by simp_all
  with sF show ?thesis by simp
qed

lemma scan_of_not_cut:
  assumes "scan_of input = Continue s"
    and "parts input \<noteq> []" "lineContent input \<noteq> []"
  shows "scan_of (input\<lparr>stopRenderingLineAfter := - 1\<rparr>) = Continue s"
proof -
  from parts_loop_no_break [OF assms(1) [unfolded scan_of_def], of "int (length (lineContent input))"]
  show ?thesis by (simp add: scan_of_def)
qed

lemma scan_of_cut:
  assumes "scan_of input = Return r"
  shows "\<exists>sF. scan_of (input\<lparr>stopRenderingLineAfter := - 1\<rparr>) = Continue sF \<and>
           cut_short r (out sF) (charOffsetInPartArr sF)"
  using parts_loop_cut_short [OF assms [unfolded scan_of_def], of "int (length (lineContent input))"]
  by (simp add: scan_of_def)

lemma scan_of_Return_table:
  assumes "scan_of input = Return r"
  shows "length (charOffsetInPart r) = nat (charBreakIndex_of input) + 1"
proof -
  from parts_loop_Return [OF assms [unfolded scan_of_def]] obtain sb w where
    sb: "int (charIndex sb) = max 0 (charBreakIndex_of input)"
        "charOffsetInPart r = incr_last (charOffsetInPartArr (char_step (lineContent input) (tabSize input) w sb))"
        "length (charOffsetInPartArr sb) = charIndex sb"
    by auto
  from sb(1) have "charIndex sb = nat (charBreakIndex_of input)" by linarith
  with sb(2,3) show ?thesis by (simp add: char_step_arr_inv)
qed

lemma renderLine_unlimited:
  assumes "lineContent input \<noteq> []" "parts input \<noteq> []"
    and "scan_of (input\<lparr>stopRenderingLineAfter := - 1\<rparr>) = Continue sF"
  shows "renderLine (input\<lparr>stopRenderingLineAfter := - 1\<rparr>) =
     Inr \<lparr>charOffsetInPart = charOffsetInPartArr sF @ [charOffsetInPart' sF],
          lastRenderedPartIndex = int (length (parts input)) - 1,
          output = out sF @ [js ''</span>'']\<rparr>"
  using assms renderLine_scan [of "input\<lparr>stopRenderingLineAfter := - 1\<rparr>"] by simp

lemma renderLine_cut_short:
  assumes "lineContent input \<noteq> []" "parts input \<noteq> []" "scan_of input = Return r"
  shows "\<exists>rF. renderLine (input\<lparr>stopRenderingLineAfter := - 1\<rparr>) = Inr rF \<and>
           cut_short r (output rF) (charOffsetInPart rF)"
proof -
  from scan_of_cut [OF assms(3)] obtain sF where
    sF: "scan_of (input\<lparr>stopRenderingLineAfter := - 1\<rparr>) = Continue sF"
        "cut_short r (out sF) (charOffsetInPartArr sF)"
    by blast
  from cut_short_ext [OF sF(2), of "[js ''</span>'']" "[charOffsetInPart' sF]"]
    renderLine_unlimited [OF assms(1,2) sF(1)]
  show ?thesis by simp
qed

lemma scan_of_Return_part:
  assumes "scan_of input = Return r"
  shows "\<exists>k. lastRenderedPartIndex r = int k \<and> k < length (parts input) \<and>
           (\<forall>j<k. startIndex (parts input ! (j + 1)) \<le> max 0 (charBreakIndex_of input)) \<and>
           (k + 1 < length (parts input) \<longrightarrow>
              max 0 (charBreakIndex_of input) < startIndex (parts input ! (k + 1)))"
proof -
  let ?len = "int (length (lineContent input))"
  let ?b = "max 0 (charBreakIndex_of input)"
  from parts_loop_Return [OF assms [unfolded scan_of_def]] obtain k where
    k: "k < length (parts input)" "lastRenderedPartIndex r = int k"
       "\<forall>j. j < k \<longrightarrow> toCharIndex_of ?len (parts input) j \<le> ?b"
       "?b < toCharIndex_of ?len (parts input) k"
    by auto
  from k(4) toCharIndex_of_le [of ?len "parts input" k] have b: "?b < ?len" by linarith
  have "\<forall>j<k. startIndex (parts input ! (j + 1)) \<le> ?b"
  proof (intro allI impI)
    fix j assume j: "j < k"
    with k(1) have "j + 1 < length (parts input)" by simp
    then have "toCharIndex_of ?len (parts input) j = min ?len (startIndex (parts input ! (j + 1)))"
      by (simp add: toCharIndex_of_def)
    moreover from k(3) j have "toCharIndex_of ?len (parts input) j \<le> ?b" by blast
    ultimately show "startIndex (parts input ! (j + 1)) \<le> ?b" using b by linarith
  qed
  moreover have "k + 1 < length (parts input) \<longrightarrow> ?b < startIndex (parts input ! (k + 1))"
  proof
    assume "k + 1 < length (parts input)"
    then have "toCharIndex_of ?len (parts input) k = min ?len (startIndex (parts input ! (k + 1)))"
      by (simp add: toCharIndex_of_def)
    with k(4) show "?b < startIndex (parts input ! (k + 1))" by linarith
  qed
  ultimately show ?thesis using k(1,2) by blast
qed

lemma scan_of_Return_output:
  assumes "scan_of input = Return r" "lastRenderedPartIndex r = int k"
  shows "\<exists>pre. output r = pre @ [js ''&hellip;</span></span>''] \<and>
           set pre \<inter> marked \<subseteq> type ` set (take (Suc k) (parts input))"
proof -
  from parts_loop_Return [OF assms(1) [unfolded scan_of_def]] assms(2) obtain sb w fs where
    sb: "output r = out (char_step (lineContent input) (tabSize input) w sb) @
                    [js ''&hellip;</span></span>'']"
        "out sb = out initial_scan @ fs"
        "set fs \<inter> marked \<subseteq> type ` set (take (Suc k) (parts input))"
    by auto
  obtain fs' where
    fs': "out (char_step (lineContent input) (tabSize input) w sb) = out sb @ fs'"
         "set fs' \<inter> marked = {}"
    using char_step_out_any by blast
  have "set ([js ''<span>''] @ fs @ fs') \<inter> marked \<subseteq> type ` set (take (Suc k) (parts input))"
    using sb(3) fs'(2) markup_not_marked(4) by auto
  with sb(1,2) fs'(1) show ?thesis by (intro exI [of _ "[js ''<span>''] @ fs @ fs'"]) simp
qed

lemma ordered_tokens_unique:
  assumes "sorted_wrt (<) (map startIndex ps)"
    and "k < length ps" "startIndex (ps ! k) \<le> x"
        "k + 1 < length ps \<longrightarrow> x < startIndex (ps ! (k + 1))"
    and "k' < length ps" "startIndex (ps ! k') \<le> x"
        "k' + 1 < length ps \<longrightarrow> x < startIndex (ps ! (k' + 1))"
  shows "k' = k"
proof -
  have mono: "\<And>i j. i \<le> j \<Longrightarrow> j < length ps \<Longrightarrow> startIndex (ps ! i) \<le> startIndex (ps ! j)"
  proof -
    fix i j assume ij: "i \<le> j" "j < length ps"
    show "startIndex (ps ! i) \<le> startIndex (ps ! j)"
    proof (cases "i = j")
      case True then show ?thesis by simp
    next
      case False
      with ij have "i < j" by simp
      with assms(1) ij(2) have "map startIndex ps ! i < map startIndex ps ! j"
        by (simp add: sorted_wrt_iff_nth_less)
      with ij \<open>i < j\<close> show ?thesis by simp
    qed
  qed
  show ?thesis
  proof (rule ccontr)
    assume "k' \<noteq> k"
    then consider "k' < k" | "k < k'" by linarith
    then show False
    proof cases
      case 1
      then have "k' + 1 \<le> k" by simp
      from mono [OF this assms(2)] assms(3,7) 1 assms(2) show False by simp
    next
      case 2
      then have "k + 1 \<le> k'" by simp
      from mono [OF this assms(5)] assms(6,4) 2 assms(5) show False by simp
    qed
  qed
qed

subsection \<open>Escaped characters\<close>

lemma switch_out_escape:
  assumes "charCodeAt L (charIndex s) = Some c" "c \<in> {c_lowerThan, c_greaterThan, c_ampersand}"
  shows "out (switch_charCode L t w s) = out s @ [entity c]"
  using assms
  by (auto simp add: switch_charCode_def entity_def c_tab_def c_space_def c_lowerThan_def
      c_greaterThan_def c_ampersand_def)

lemma char_step_out_escape:
  assumes "charCodeAt L (charIndex s) = Some c" "c \<in> {c_lowerThan, c_greaterThan, c_ampersand}"
  shows "out (char_step L t w s) = out s @ [entity c]"
  using switch_out_escape [of L "s\<lparr>charOffsetInPartArr :=
      array_set (charOffsetInPartArr s) (charIndex s) (charOffsetInPart' s)\<rparr>" c t w] assms
  by (simp add: char_step_def Let_def)

lemma raw_marked: "{js ''<'', js ''>'', js ''&''} \<subseteq> marked"
  by (simp add: marked_def)

lemma renderLine_raw_fragments:
  assumes "renderLine input = Inr r"
  shows "set (output r) \<inter> {js ''<'', js ''>'', js ''&''} \<subseteq> type ` set (parts input)"
proof (cases "lineContent input = []")
  case True
  with assms have "output r = [js ''<span><span>&nbsp;</span></span>'']"
    by (auto simp add: renderLine_def)
  then show ?thesis by (simp add: js_def)
next
  case ne: False
  with assms have ps: "parts input \<noteq> []"
    by (auto simp add: renderLine_def Let_def split: if_splits)
  show ?thesis
  proof (cases "scan_of input")
    case (Return r')
    with assms ne ps have r': "r' = r" by (simp add: renderLine_scan)
    from scan_of_Return_part [OF Return] r' obtain k where k: "lastRenderedPartIndex r = int k"
      by blast
    from scan_of_Return_output [OF Return [unfolded r'] k] obtain pre where
      pre: "output r = pre @ [js ''&hellip;</span></span>'']"
           "set pre \<inter> marked \<subseteq> type ` set (take (Suc k) (parts input))"
      by blast
    have "js ''&hellip;</span></span>'' \<notin> {js ''<'', js ''>'', js ''&''}" by (simp add: js_def)
    with pre raw_marked show ?thesis by (auto dest: in_set_takeD)
  next
    case (Continue s)
    with assms ne ps have r: "output r = out s @ [js ''</span>'']"
      by (auto simp add: renderLine_scan)
    from parts_loop_Continue [OF Continue [unfolded scan_of_def]] obtain fs where
      fs: "out s = out initial_scan @ fs" "set fs \<inter> marked \<subseteq> type ` set (parts input)"
      by blast
    have "js ''</span>'' \<notin> {js ''<'', js ''>'', js ''&''}"
         "js ''<span>'' \<notin> {js ''<'', js ''>'', js ''&''}" by (simp_all add: js_def)
    with r fs raw_marked show ?thesis by auto
  qed
qed

lemma charBreakIndex_of_limit [simp]:
  "charBreakIndex_of (input\<lparr>stopRenderingLineAfter := int i + 1\<rparr>) = int i"
  by (simp add: charBreakIndex_of_def)

lemma escaped_at:
  assumes "i < length (lineContent input)" and "parts input \<noteq> []"
    and "lineContent input ! i \<in> {c_lowerThan, c_greaterThan, c_ampersand}"
  shows "\<exists>r rF pre fs.
     renderLine (input\<lparr>stopRenderingLineAfter := int i + 1\<rparr>) = Inr r \<and>
     renderLine (input\<lparr>stopRenderingLineAfter := - 1\<rparr>) = Inr rF \<and>
     output r = pre @ [entity (lineContent input ! i), js ''&hellip;</span></span>''] \<and>
     output rF = pre @ entity (lineContent input ! i) # fs"
proof -
  let ?t = "input\<lparr>stopRenderingLineAfter := int i + 1\<rparr>"
  let ?L = "lineContent input"
  from assms(1) have ne: "lineContent ?t \<noteq> []" by auto
  from assms(2) have ps: "parts ?t \<noteq> []" by simp
  from scan_of_flow [OF ps] assms(1) obtain r where r: "scan_of ?t = Return r" by auto
  have R: "renderLine ?t = Inr r" using ne ps r by (simp add: renderLine_scan)
  from parts_loop_Return [OF r [unfolded scan_of_def]] obtain sb w where
    sb: "int (charIndex sb) = max 0 (int i)"
        "output r = out (char_step ?L (tabSize input) w sb) @ [js ''&hellip;</span></span>'']"
    by auto
  from sb(1) have "charIndex sb = i" by simp
  with assms(1) have "charCodeAt ?L (charIndex sb) = Some (?L ! i)" by (simp add: charCodeAt_def)
  from char_step_out_escape [OF this assms(3)] sb(2)
  have o: "output r = out sb @ [entity (?L ! i), js ''&hellip;</span></span>'']" by simp
  from renderLine_cut_short [OF ne ps r] obtain rF where
    rF: "renderLine (input\<lparr>stopRenderingLineAfter := - 1\<rparr>) = Inr rF"
        "cut_short r (output rF) (charOffsetInPart rF)"
    by auto
  from rF(2) obtain ofs fs where
    c: "output r = ofs @ [js ''&hellip;</span></span>'']" "output rF = ofs @ fs"
    unfolding cut_short_def by blast
  from c(1) o have "ofs = out sb @ [entity (?L ! i)]" by simp
  with c(2) have "output rF = out sb @ entity (?L ! i) # fs" by simp
  with R rF(1) o show ?thesis by blast
qed

subsection \<open>What the loop reads of the tokens\<close>

lemma parts_loop_reads:
  assumes "length ps' = length ps"
    and "\<forall>j<length ps. type (ps' ! j) = type (ps ! j)"
    and "\<forall>j. 0 < j \<and> j < length ps \<longrightarrow> startIndex (ps' ! j) = startIndex (ps ! j)"
  shows "parts_loop L len t ps' rw cbi p s = parts_loop L len t ps rw cbi p s"
  using assms
proof (induction L len t ps rw cbi p s rule: parts_loop.induct)
  case (1 L len t ps rw cbi p s)
  show ?case
  proof (cases "p < length ps")
    case False
    with "1.prems"(1) show ?thesis by (simp add: parts_loop_done)
  next
    case lt: True
    with "1.prems"(1) have lt': "p < length ps'" by simp
    have w: "partRendersWhitespace_of rw (ps' ! p) = partRendersWhitespace_of rw (ps ! p)"
      using "1.prems"(2) lt by (simp add: partRendersWhitespace_of_def)
    have o: "open_part (ps' ! p) s = open_part (ps ! p) s"
      using "1.prems"(2) lt by (simp add: open_part_def)
    have to: "toCharIndex_of len ps' p = toCharIndex_of len ps p"
      using "1.prems"(1,3) by (simp add: toCharIndex_of_def)
    show ?thesis
    proof (cases "chars_loop L t (partRendersWhitespace_of rw (ps ! p)) cbi p
                    (toCharIndex_of len ps p) (open_part (ps ! p) s)")
      case (Return r)
      with lt lt' w o to show ?thesis by (simp add: parts_loop_unfold)
    next
      case (Continue s3)
      from "1.IH" [OF lt Continue "1.prems"] Continue lt lt' w o to show ?thesis
        by (simp add: parts_loop_unfold)
    qed
  qed
qed

lemma renderLine_first_startIndex:
  "renderLine (input\<lparr>parts := q\<lparr>startIndex := x\<rparr> # qs\<rparr>) =
   renderLine (input\<lparr>parts := q # qs\<rparr>)"
proof -
  have "parts_loop L len t (q\<lparr>startIndex := x\<rparr> # qs) rw cbi 0 s =
        parts_loop L len t (q # qs) rw cbi 0 s" for L len t rw cbi s
    by (rule parts_loop_reads) (auto simp add: nth_Cons')
  then show ?thesis
    by (simp add: renderLine_def renderLineActual_def charBreakIndex_of_def Let_def
        split: flow.splits)
qed

subsection \<open>The first and the last fragment\<close>

lemma scan_of_Return_shape:
  assumes "scan_of input = Return r"
  shows "\<exists>mid. output r = js ''<span>'' # mid @ [js ''&hellip;</span></span>'']"
proof -
  from parts_loop_Return [OF assms [unfolded scan_of_def]] obtain sb w fs where
    sb: "output r = out (char_step (lineContent input) (tabSize input) w sb) @
                    [js ''&hellip;</span></span>'']"
        "out sb = out initial_scan @ fs"
    by auto
  obtain fs' where "out (char_step (lineContent input) (tabSize input) w sb) = out sb @ fs'"
    using char_step_out_any by blast
  with sb show ?thesis by simp
qed

lemma scan_of_Continue_shape:
  assumes "scan_of input = Continue s"
  shows "\<exists>mid. out s = js ''<span>'' # mid"
  using parts_loop_Continue [OF assms [unfolded scan_of_def]] by auto

subsection \<open>The variables of a scan\<close>

lemma reached_delta:
  assumes "reached L t s" and "1 \<le> t"
  shows "0 \<le> tabsCharDelta s"
  using assms
proof (induction rule: reached.induct)
  case start
  show ?case by simp
next
  case (opened s part)
  then show ?case by simp
next
  case (stepped s w)
  with char_step_mono [OF stepped.prems, of s L w] show ?case by simp
next
  case (closed s)
  then show ?case by simp
qed

lemma chars_loop_reached:
  "reached L t s \<Longrightarrow>
   (case chars_loop L t w cbi p to s of
      Continue s' \<Rightarrow> reached L t s'
    | Return r \<Rightarrow>
        \<exists>sb. reached L t sb \<and> int (charIndex sb) = max (int (charIndex s)) cbi \<and>
          output r = out (char_step L t w sb) @ [js ''&hellip;</span></span>''] \<and>
          charOffsetInPart r = incr_last (charOffsetInPartArr (char_step L t w sb)))"
proof (induction L t w cbi p to s rule: chars_loop.induct)
  case (1 L t w cbi p to s)
  show ?case
  proof (cases "int (charIndex s) < to")
    case False
    with "1.prems" show ?thesis by (subst chars_loop.simps) simp
  next
    case lt: True
    show ?thesis
    proof (cases "cbi \<le> int (charIndex s)")
      case True
      have "chars_loop L t w cbi p to s =
        Return \<lparr>charOffsetInPart = incr_last (charOffsetInPartArr (char_step L t w s)),
                lastRenderedPartIndex = int p,
                output = out (char_step L t w s) @ [js ''&hellip;</span></span>'']\<rparr>"
        using lt True by (subst chars_loop.simps) simp
      moreover have "int (charIndex s) = max (int (charIndex s)) cbi" using True by simp
      ultimately show ?thesis using "1.prems" by (auto intro: exI [of _ s])
    next
      case False
      let ?s1 = "(char_step L t w s)\<lparr>charIndex := charIndex s + 1\<rparr>"
      have unf: "chars_loop L t w cbi p to s = chars_loop L t w cbi p to ?s1"
        using lt False by (subst chars_loop.simps) simp
      have r1: "reached L t ?s1" using "1.prems" by (rule reached.stepped)
      have mx: "max (int (charIndex ?s1)) cbi = max (int (charIndex s)) cbi"
        using False by simp
      from "1.IH" [OF lt False r1] unf mx show ?thesis by (simp split: flow.splits)
    qed
  qed
qed

lemma parts_loop_reached:
  "reached L t s \<Longrightarrow>
   (case parts_loop L len t ps rw cbi p s of
      Continue s' \<Rightarrow> reached L t s'
    | Return r \<Rightarrow>
        \<exists>sb w. reached L t sb \<and>
          output r = out (char_step L t w sb) @ [js ''&hellip;</span></span>''] \<and>
          charOffsetInPart r = incr_last (charOffsetInPartArr (char_step L t w sb)))"
proof (induction L len t ps rw cbi p s rule: parts_loop.induct)
  case (1 L len t ps rw cbi p s)
  show ?case
  proof (cases "p < length ps")
    case False
    with "1.prems" show ?thesis by (simp add: parts_loop_done)
  next
    case lt: True
    let ?w = "partRendersWhitespace_of rw (ps ! p)"
    let ?to = "toCharIndex_of len ps p"
    let ?s0 = "open_part (ps ! p) s"
    have r0: "reached L t ?s0" using "1.prems" by (rule reached.opened)
    note C = chars_loop_reached [OF r0, where w = ?w and cbi = cbi and p = p and to = ?to]
    show ?thesis
    proof (cases "chars_loop L t ?w cbi p ?to ?s0")
      case (Return r)
      with C lt show ?thesis by (auto simp add: parts_loop_unfold)
    next
      case (Continue s3)
      with C have "reached L t (close_part s3)" by (auto intro: reached.closed)
      from "1.IH" [OF lt Continue this] Continue lt show ?thesis
        by (simp add: parts_loop_unfold)
    qed
  qed
qed

lemma example_tab_state_reached: "reached (lineContent example_a_tab_b) 4 example_tab_state"
proof -
  let ?L = "lineContent example_a_tab_b"
  let ?s0 = "open_part \<lparr>startIndex = 0, type = js ''text''\<rparr> initial_scan"
  have "example_tab_state = (char_step ?L 4 False ?s0)\<lparr>charIndex := charIndex ?s0 + 1\<rparr>"
    by (simp add: example_tab_state_def example_a_tab_b_def eval_defs)
  moreover have "reached ?L 4 ((char_step ?L 4 False ?s0)\<lparr>charIndex := charIndex ?s0 + 1\<rparr>)"
    by (intro reached.stepped reached.opened reached.start)
  ultimately show ?thesis by simp
qed

subsection \<open>The store\<close>

lemma kept_refl [simp]: "kept \<sigma> \<sigma>"
  by (simp add: kept_def)

lemma kept_put: "kept \<sigma>0 \<sigma> \<Longrightarrow> lim \<sigma>0 \<le> a \<Longrightarrow> kept \<sigma>0 (put a v \<sigma>)"
  by (simp add: kept_def put_def)

lemma kept_alloc: "kept \<sigma>0 \<sigma> \<Longrightarrow> alloc v \<sigma> = (a, \<sigma>') \<Longrightarrow> kept \<sigma>0 \<sigma>' \<and> lim \<sigma>0 \<le> a"
  by (auto simp add: kept_def alloc_def)

lemma step_ref_kept:
  assumes "step_ref f \<sigma> l = Some (\<sigma>', l')"
    and "kept \<sigma>0 \<sigma>" "lim \<sigma>0 \<le> out_l l" "lim \<sigma>0 \<le> charOffsetInPartArr_l l"
  shows "kept \<sigma>0 \<sigma>' \<and> out_l l' = out_l l \<and> charOffsetInPartArr_l l' = charOffsetInPartArr_l l"
  using assms
  by (auto simp add: step_ref_def unload_def kept_put split: option.splits)

lemma chars_loop_ref_kept:
  "chars_loop_ref L t w cbi p to \<sigma> l = (f, \<sigma>') \<Longrightarrow>
   kept \<sigma>0 \<sigma> \<Longrightarrow> lim \<sigma>0 \<le> out_l l \<Longrightarrow> lim \<sigma>0 \<le> charOffsetInPartArr_l l \<Longrightarrow>
   kept \<sigma>0 \<sigma>' \<and>
   (\<forall>l'. f = Continue_ref l' \<longrightarrow>
      out_l l' = out_l l \<and> charOffsetInPartArr_l l' = charOffsetInPartArr_l l)"
proof (induction L t w cbi p to \<sigma> l arbitrary: f \<sigma>' rule: chars_loop_ref.induct)
  case (1 L t w cbi p to \<sigma> l)
  show ?case
  proof (cases "int (charIndex_l l) < to")
    case False
    with "1.prems" show ?thesis by (subst (asm) chars_loop_ref.simps) auto
  next
    case lt: True
    show ?thesis
    proof (cases "step_ref (char_step L t w) \<sigma> l")
      case None
      with lt "1.prems" show ?thesis by (subst (asm) chars_loop_ref.simps) auto
    next
      case (Some x)
      obtain \<sigma>1 l1 where x: "x = (\<sigma>1, l1)" by (cases x)
      from step_ref_kept [OF Some [unfolded x] "1.prems"(2,3,4)]
      have k1: "kept \<sigma>0 \<sigma>1" "out_l l1 = out_l l"
        "charOffsetInPartArr_l l1 = charOffsetInPartArr_l l" by simp_all
      show ?thesis
      proof (cases "cbi \<le> int (charIndex_l l)")
        case True
        show ?thesis
        proof (cases "step_ref cut_ref \<sigma>1 l1")
          case None
          with lt Some x True "1.prems"(1) k1 show ?thesis
            by (subst (asm) chars_loop_ref.simps) auto
        next
          case (Some y)
          obtain \<sigma>2 l2 where y: "y = (\<sigma>2, l2)" by (cases y)
          from step_ref_kept [OF Some [unfolded y] k1(1)] k1(2,3) "1.prems"(3,4)
          have "kept \<sigma>0 \<sigma>2" by simp
          with lt \<open>step_ref (char_step L t w) \<sigma> l = Some x\<close> x True Some y "1.prems"(1)
          show ?thesis by (subst (asm) chars_loop_ref.simps) auto
        qed
      next
        case False
        with lt Some x "1.prems"(1) have
          run: "chars_loop_ref L t w cbi p to \<sigma>1 (l1\<lparr>charIndex_l := charIndex_l l + 1\<rparr>) = (f, \<sigma>')"
          by (subst (asm) chars_loop_ref.simps) simp
        from "1.IH" [OF lt Some [unfolded x] refl False run k1(1)] k1(2,3) "1.prems"(3,4)
        show ?thesis by simp
      qed
    qed
  qed
qed

lemma parts_loop_ref_kept:
  "parts_loop_ref L len t a rw cbi n p \<sigma> l = (f, \<sigma>') \<Longrightarrow>
   kept \<sigma>0 \<sigma> \<Longrightarrow> lim \<sigma>0 \<le> out_l l \<Longrightarrow> lim \<sigma>0 \<le> charOffsetInPartArr_l l \<Longrightarrow>
   kept \<sigma>0 \<sigma>' \<and>
   (\<forall>l'. f = Continue_ref l' \<longrightarrow>
      out_l l' = out_l l \<and> charOffsetInPartArr_l l' = charOffsetInPartArr_l l)"
proof (induction L len t a rw cbi n p \<sigma> l arbitrary: f \<sigma>' rule: parts_loop_ref.induct)
  case (1 L len t a rw cbi n p \<sigma> l)
  show ?case
  proof (cases "p < n")
    case False
    with "1.prems" show ?thesis by (subst (asm) parts_loop_ref.simps) auto
  next
    case lt: True
    show ?thesis
    proof (cases "element \<sigma> a p")
      case None
      with lt "1.prems" show ?thesis by (subst (asm) parts_loop_ref.simps) auto
    next
      case part: (Some part)
      show ?thesis
      proof (cases "step_ref (open_part part) \<sigma> l")
        case None
        with lt part "1.prems" show ?thesis by (subst (asm) parts_loop_ref.simps) auto
      next
        case s1: (Some x)
        obtain \<sigma>1 l1 where x: "x = (\<sigma>1, l1)" by (cases x)
        from step_ref_kept [OF s1 [unfolded x] "1.prems"(2,3,4)]
        have k1: "kept \<sigma>0 \<sigma>1" "out_l l1 = out_l l"
          "charOffsetInPartArr_l l1 = charOffsetInPartArr_l l" by simp_all
        show ?thesis
        proof (cases "toCharIndex_ref \<sigma>1 len a n p")
          case None
          with lt part s1 x k1 "1.prems"(1) show ?thesis
            by (subst (asm) parts_loop_ref.simps) auto
        next
          case to: (Some to)
          obtain f3 \<sigma>3 where
            c: "chars_loop_ref L t (partRendersWhitespace_of rw part) cbi p to \<sigma>1 l1 = (f3, \<sigma>3)"
            by (cases "chars_loop_ref L t (partRendersWhitespace_of rw part) cbi p to \<sigma>1 l1")
          from chars_loop_ref_kept [OF c k1(1)] k1(2,3) "1.prems"(3,4)
          have k3: "kept \<sigma>0 \<sigma>3"
            "\<forall>l'. f3 = Continue_ref l' \<longrightarrow>
               out_l l' = out_l l \<and> charOffsetInPartArr_l l' = charOffsetInPartArr_l l"
            by simp_all
          show ?thesis
          proof (cases f3)
            case (Return_ref r)
            with lt part s1 x to c k3 "1.prems"(1) show ?thesis
              by (subst (asm) parts_loop_ref.simps) auto
          next
            case Throw_ref
            with lt part s1 x to c k3 "1.prems"(1) show ?thesis
              by (subst (asm) parts_loop_ref.simps) auto
          next
            case (Continue_ref l3)
            with k3(2) have r3: "out_l l3 = out_l l"
              "charOffsetInPartArr_l l3 = charOffsetInPartArr_l l" by simp_all
            show ?thesis
            proof (cases "step_ref close_part \<sigma>3 l3")
              case None
              with lt part s1 x to c Continue_ref k3 "1.prems"(1) show ?thesis
                by (subst (asm) parts_loop_ref.simps) auto
            next
              case s4: (Some y)
              obtain \<sigma>4 l4 where y: "y = (\<sigma>4, l4)" by (cases y)
              from step_ref_kept [OF s4 [unfolded y] k3(1)] r3 "1.prems"(3,4)
              have k4: "kept \<sigma>0 \<sigma>4" "out_l l4 = out_l l"
                "charOffsetInPartArr_l l4 = charOffsetInPartArr_l l" by simp_all
              from lt part s1 x to c Continue_ref s4 y "1.prems"(1) have
                run: "parts_loop_ref L len t a rw cbi n (p + 1) \<sigma>4 l4 = (f, \<sigma>')"
                by (subst (asm) parts_loop_ref.simps) simp
              from "1.IH" [OF lt part s1 [unfolded x] refl to c [symmetric] Continue_ref
                  s4 [unfolded y] refl run k4(1)] k4(2,3) "1.prems"(3,4)
              show ?thesis by simp
            qed
          qed
        qed
      qed
    qed
  qed
qed

lemma kept_trans: "kept \<sigma>0 \<sigma>1 \<Longrightarrow> kept \<sigma>1 \<sigma>2 \<Longrightarrow> kept \<sigma>0 \<sigma>2"
  by (auto simp add: kept_def)

lemma renderLineActual_ref_kept:
  assumes "renderLineActual_ref L len t a rw cbi \<sigma> = (res, \<sigma>')"
  shows "kept \<sigma> \<sigma>'"
proof -
  let ?out0 = "lim \<sigma>"
  let ?\<sigma>1 = "\<lparr>objs = (objs \<sigma>)(lim \<sigma> \<mapsto> StringArr []), lim = Suc (lim \<sigma>)\<rparr>"
  let ?arr0 = "Suc (lim \<sigma>)"
  let ?\<sigma>2 = "\<lparr>objs = (objs ?\<sigma>1)(Suc (lim \<sigma>) \<mapsto> NumberArr []), lim = Suc (Suc (lim \<sigma>))\<rparr>"
  let ?\<sigma>3 = "put ?out0 (StringArr [js ''<span>'']) ?\<sigma>2"
  let ?l0 = "\<lparr>charIndex_l = 0, out_l = ?out0, charOffsetInPartArr_l = ?arr0,
                 charOffsetInPart_l = 0, tabsCharDelta_l = 0\<rparr>"
  have k3: "kept \<sigma> ?\<sigma>3" by (simp add: kept_def put_def)
  show ?thesis
  proof (cases "array_length ?\<sigma>3 a")
    case None
    with assms k3 show ?thesis by (simp add: renderLineActual_ref_def alloc_def Let_def)
  next
    case (Some n)
    obtain f \<sigma>4 where p: "parts_loop_ref L len t a rw cbi n 0 ?\<sigma>3 ?l0 = (f, \<sigma>4)"
      by (cases "parts_loop_ref L len t a rw cbi n 0 ?\<sigma>3 ?l0")
    from parts_loop_ref_kept [OF p k3] have k4: "kept \<sigma> \<sigma>4"
      "\<forall>l'. f = Continue_ref l' \<longrightarrow> out_l l' = ?out0 \<and> charOffsetInPartArr_l l' = ?arr0"
      by simp_all
    show ?thesis
    proof (cases f)
      case (Return_ref r)
      with assms Some p k4 show ?thesis
        by (simp add: renderLineActual_ref_def alloc_def Let_def)
    next
      case Throw_ref
      with assms Some p k4 show ?thesis
        by (simp add: renderLineActual_ref_def alloc_def Let_def)
    next
      case (Continue_ref l)
      show ?thesis
      proof (cases "step_ref finish_scan \<sigma>4 l")
        case None
        with assms Some p Continue_ref k4 show ?thesis
          by (simp add: renderLineActual_ref_def alloc_def Let_def)
      next
        case s5: (Some y)
        obtain \<sigma>5 l5 where y: "y = (\<sigma>5, l5)" by (cases y)
        from step_ref_kept [OF s5 [unfolded y] k4(1)] k4(2) Continue_ref
        have "kept \<sigma> \<sigma>5" by simp
        with assms Some p Continue_ref s5 y show ?thesis
          by (auto simp add: renderLineActual_ref_def alloc_def Let_def split: option.splits)
      qed
    qed
  qed
qed

lemma slice0_kept:
  assumes "slice0 a \<sigma> = Some (copy, \<sigma>1)"
  shows "kept \<sigma> \<sigma>1 \<and> copy = lim \<sigma> \<and> objs \<sigma>1 copy = objs \<sigma> a"
  using assms by (auto simp add: slice0_def alloc_def kept_def split: option.splits obj.splits)

lemma renderLine_ref_kept:
  assumes "renderLine_ref input \<sigma> = (res, \<sigma>')"
  shows "kept \<sigma> \<sigma>'"
proof (cases "lineContent_ref input = []")
  case True
  with assms show ?thesis by (auto simp add: renderLine_ref_def alloc_def kept_def)
next
  case ne: False
  show ?thesis
  proof (cases "array_length \<sigma> (parts_ref input)")
    case None
    with assms ne show ?thesis by (simp add: renderLine_ref_def Let_def)
  next
    case (Some n)
    show ?thesis
    proof (cases "n = 0")
      case True
      with assms ne Some show ?thesis by (simp add: renderLine_ref_def Let_def)
    next
      case False
      show ?thesis
      proof (cases "slice0 (parts_ref input) \<sigma>")
        case None
        with assms ne Some False show ?thesis by (simp add: renderLine_ref_def Let_def)
      next
        case sl: (Some x)
        obtain copy \<sigma>1 where x: "x = (copy, \<sigma>1)" by (cases x)
        from slice0_kept [OF sl [unfolded x]] have k1: "kept \<sigma> \<sigma>1" by simp
        from assms ne Some False sl x obtain L len t rw cbi where
          "renderLineActual_ref L len t copy rw cbi \<sigma>1 = (res, \<sigma>')"
          by (simp add: renderLine_ref_def Let_def)
        from renderLineActual_ref_kept [OF this] k1 show ?thesis by (rule kept_trans [rotated])
      qed
    qed
  qed
qed

subsection \<open>The store and the values\<close>

lemma same_but_refl [simp]: "same_but l \<sigma> \<sigma>"
  by (simp add: same_but_def)

lemma same_but_trans:
  "same_but l \<sigma> \<sigma>1 \<Longrightarrow> same_but l' \<sigma>1 \<sigma>2 \<Longrightarrow> out_l l' = out_l l \<Longrightarrow>
   charOffsetInPartArr_l l' = charOffsetInPartArr_l l \<Longrightarrow> same_but l \<sigma> \<sigma>2"
  by (simp add: same_but_def)

lemma step_ref_load:
  assumes "load \<sigma> l = Some s" and "out_l l \<noteq> charOffsetInPartArr_l l"
  shows "\<exists>\<sigma>' l'. step_ref f \<sigma> l = Some (\<sigma>', l') \<and> load \<sigma>' l' = Some (f s) \<and>
           out_l l' = out_l l \<and> charOffsetInPartArr_l l' = charOffsetInPartArr_l l \<and>
           charIndex_l l' = charIndex (f s) \<and> same_but l \<sigma> \<sigma>'"
  using assms
  by (simp add: step_ref_def unload_def load_def put_def same_but_def)

lemma load_charIndex:
  "load \<sigma> l = Some s \<Longrightarrow> charIndex s = charIndex_l l"
  by (auto simp add: load_def split: option.splits obj.splits)

lemma load_arrays:
  assumes "load \<sigma> l = Some s"
  shows "objs \<sigma> (out_l l) = Some (StringArr (out s))"
    and "objs \<sigma> (charOffsetInPartArr_l l) = Some (NumberArr (charOffsetInPartArr s))"
    and "charOffsetInPart_l l = charOffsetInPart' s" and "tabsCharDelta_l l = tabsCharDelta s"
  using assms by (auto simp add: load_def split: option.splits obj.splits)

lemma load_charIndex_update:
  "load \<sigma> l = Some s \<Longrightarrow> load \<sigma> (l\<lparr>charIndex_l := i\<rparr>) = Some (s\<lparr>charIndex := i\<rparr>)"
  by (auto simp add: load_def split: option.splits obj.splits)

lemma chars_loop_ref_refines:
  "chars_loop_ref L t w cbi p to \<sigma> l = (f, \<sigma>') \<Longrightarrow> load \<sigma> l = Some s \<Longrightarrow>
   out_l l \<noteq> charOffsetInPartArr_l l \<Longrightarrow>
   same_but l \<sigma> \<sigma>' \<and>
   (case chars_loop L t w cbi p to s of
      Continue s' \<Rightarrow>
        \<exists>l'. f = Continue_ref l' \<and> load \<sigma>' l' = Some s' \<and> out_l l' = out_l l \<and>
             charOffsetInPartArr_l l' = charOffsetInPartArr_l l
    | Return r \<Rightarrow> \<exists>rr. f = Return_ref rr \<and> deref \<sigma>' rr = Some r)"
proof (induction L t w cbi p to \<sigma> l arbitrary: f \<sigma>' s rule: chars_loop_ref.induct)
  case (1 L t w cbi p to \<sigma> l)
  note ci = load_charIndex [OF "1.prems"(2)]
  show ?case
  proof (cases "int (charIndex_l l) < to")
    case False
    with "1.prems" ci show ?thesis
      by (subst (asm) chars_loop_ref.simps, subst chars_loop.simps) auto
  next
    case lt: True
    from step_ref_load [OF "1.prems"(2,3), of "char_step L t w"] obtain \<sigma>1 l1 where
      s1: "step_ref (char_step L t w) \<sigma> l = Some (\<sigma>1, l1)"
          "load \<sigma>1 l1 = Some (char_step L t w s)"
          "out_l l1 = out_l l" "charOffsetInPartArr_l l1 = charOffsetInPartArr_l l"
          "same_but l \<sigma> \<sigma>1"
      by blast
    from s1(3,4) "1.prems"(3) have d1: "out_l l1 \<noteq> charOffsetInPartArr_l l1" by simp
    show ?thesis
    proof (cases "cbi \<le> int (charIndex_l l)")
      case True
      from step_ref_load [OF s1(2) d1, of cut_ref] obtain \<sigma>2 l2 where
        s2: "step_ref cut_ref \<sigma>1 l1 = Some (\<sigma>2, l2)"
            "load \<sigma>2 l2 = Some (cut_ref (char_step L t w s))"
            "out_l l2 = out_l l1" "charOffsetInPartArr_l l2 = charOffsetInPartArr_l l1"
            "same_but l1 \<sigma>1 \<sigma>2"
        by blast
      from lt True s1(1) s2(1) "1.prems"(1) have
        f: "f = Return_ref \<lparr>charOffsetInPart_ref = charOffsetInPartArr_l l2,
                         lastRenderedPartIndex_ref = int p,
                         output_ref = out_l l2\<rparr>" and \<sigma>': "\<sigma>' = \<sigma>2"
        by (subst (asm) chars_loop_ref.simps, simp)+
      have r: "chars_loop L t w cbi p to s =
        Return \<lparr>charOffsetInPart = incr_last (charOffsetInPartArr (char_step L t w s)),
                lastRenderedPartIndex = int p,
                output = out (char_step L t w s) @ [js ''&hellip;</span></span>'']\<rparr>"
        using lt True ci by (subst chars_loop.simps) simp
      have "deref \<sigma>2 \<lparr>charOffsetInPart_ref = charOffsetInPartArr_l l2,
                         lastRenderedPartIndex_ref = int p,
                         output_ref = out_l l2\<rparr> =
        Some \<lparr>charOffsetInPart = incr_last (charOffsetInPartArr (char_step L t w s)),
                lastRenderedPartIndex = int p,
                output = out (char_step L t w s) @ [js ''&hellip;</span></span>'']\<rparr>"
        using load_arrays(1,2) [OF s2(2)] by (simp add: deref_def cut_ref_def)
      moreover have "same_but l \<sigma> \<sigma>2"
        using same_but_trans [OF s1(5) s2(5) s1(3,4)] .
      ultimately show ?thesis using f \<sigma>' r by simp
    next
      case False
      let ?l1 = "l1\<lparr>charIndex_l := charIndex_l l + 1\<rparr>"
      from lt False s1(1) "1.prems"(1) have
        run: "chars_loop_ref L t w cbi p to \<sigma>1 ?l1 = (f, \<sigma>')"
        by (subst (asm) chars_loop_ref.simps) simp
      have ld: "load \<sigma>1 ?l1 = Some ((char_step L t w s)\<lparr>charIndex := charIndex_l l + 1\<rparr>)"
        using load_charIndex_update [OF s1(2)] .
      have d: "out_l ?l1 \<noteq> charOffsetInPartArr_l ?l1" using d1 by simp
      note IH = "1.IH" [OF lt s1(1) refl False run ld d]
      have unf: "chars_loop L t w cbi p to s =
        chars_loop L t w cbi p to ((char_step L t w s)\<lparr>charIndex := charIndex s + 1\<rparr>)"
        using lt False ci by (subst chars_loop.simps) simp
      have sb: "same_but l \<sigma> \<sigma>'"
        using same_but_trans [OF s1(5), of ?l1 \<sigma>'] IH s1(3,4) by simp
      from IH sb unf ci s1(3,4) show ?thesis by (simp split: flow.splits)
    qed
  qed
qed

lemma holds_tokens_element:
  "holds_tokens \<sigma> a ps \<Longrightarrow> i < length ps \<Longrightarrow> element \<sigma> a i = Some (ps ! i)"
  by (auto simp add: holds_tokens_def element_def)

lemma holds_tokens_length: "holds_tokens \<sigma> a ps \<Longrightarrow> array_length \<sigma> a = Some (length ps)"
  by (auto simp add: holds_tokens_def array_length_def)

lemma holds_tokens_toCharIndex:
  "holds_tokens \<sigma> a ps \<Longrightarrow>
   toCharIndex_ref \<sigma> len a (length ps) p = Some (toCharIndex_of len ps p)"
  by (simp add: toCharIndex_ref_def toCharIndex_of_def holds_tokens_element)

lemma holds_tokens_same_but:
  assumes "holds_tokens \<sigma> a ps" "load \<sigma> l = Some s" "same_but l \<sigma> \<sigma>'"
  shows "holds_tokens \<sigma>' a ps"
proof -
  from assms(1) obtain rs where
    rs: "objs \<sigma> a = Some (TokenArr rs)" "length rs = length ps"
        "\<forall>i<length rs. objs \<sigma> (rs ! i) = Some (TokenObj (ps ! i))"
    unfolding holds_tokens_def by blast
  note la = load_arrays(1,2) [OF assms(2)]
  from rs(1) la have a: "a \<noteq> out_l l" "a \<noteq> charOffsetInPartArr_l l" by auto
  have "\<forall>i<length rs. rs ! i \<noteq> out_l l \<and> rs ! i \<noteq> charOffsetInPartArr_l l"
    using rs(3) la by auto
  with rs a assms(3) show ?thesis
    unfolding holds_tokens_def same_but_def by auto
qed

lemma parts_loop_ref_refines:
  "parts_loop_ref L len t a rw cbi n p \<sigma> l = (f, \<sigma>') \<Longrightarrow> load \<sigma> l = Some s \<Longrightarrow>
   out_l l \<noteq> charOffsetInPartArr_l l \<Longrightarrow> holds_tokens \<sigma> a ps \<Longrightarrow> n = length ps \<Longrightarrow>
   same_but l \<sigma> \<sigma>' \<and>
   (case parts_loop L len t ps rw cbi p s of
      Continue s' \<Rightarrow>
        \<exists>l'. f = Continue_ref l' \<and> load \<sigma>' l' = Some s' \<and> out_l l' = out_l l \<and>
             charOffsetInPartArr_l l' = charOffsetInPartArr_l l
    | Return r \<Rightarrow> \<exists>rr. f = Return_ref rr \<and> deref \<sigma>' rr = Some r)"
proof (induction L len t a rw cbi n p \<sigma> l arbitrary: f \<sigma>' s rule: parts_loop_ref.induct)
  case (1 L len t a rw cbi n p \<sigma> l)
  show ?case
  proof (cases "p < n")
    case False
    with "1.prems" show ?thesis
      by (subst (asm) parts_loop_ref.simps) (auto simp add: parts_loop_done)
  next
    case lt: True
    let ?part = "ps ! p"
    let ?w = "partRendersWhitespace_of rw ?part"
    let ?to = "toCharIndex_of len ps p"
    from lt "1.prems"(4,5) have el: "element \<sigma> a p = Some ?part"
      by (simp add: holds_tokens_element)
    from step_ref_load [OF "1.prems"(2,3), of "open_part ?part"] obtain \<sigma>1 l1 where
      s1: "step_ref (open_part ?part) \<sigma> l = Some (\<sigma>1, l1)"
          "load \<sigma>1 l1 = Some (open_part ?part s)"
          "out_l l1 = out_l l" "charOffsetInPartArr_l l1 = charOffsetInPartArr_l l"
          "same_but l \<sigma> \<sigma>1"
      by blast
    from s1(3,4) "1.prems"(3) have d1: "out_l l1 \<noteq> charOffsetInPartArr_l l1" by simp
    have h1: "holds_tokens \<sigma>1 a ps"
      using holds_tokens_same_but [OF "1.prems"(4,2) s1(5)] .
    have to: "toCharIndex_ref \<sigma>1 len a n p = Some ?to"
      using holds_tokens_toCharIndex [OF h1] "1.prems"(5) by simp
    obtain f3 \<sigma>3 where c: "chars_loop_ref L t ?w cbi p ?to \<sigma>1 l1 = (f3, \<sigma>3)"
      by (cases "chars_loop_ref L t ?w cbi p ?to \<sigma>1 l1")
    note R = chars_loop_ref_refines [OF c s1(2) d1]
    from R have sb3: "same_but l1 \<sigma>1 \<sigma>3" by simp
    have sb13: "same_but l \<sigma> \<sigma>3" using same_but_trans [OF s1(5) sb3 s1(3,4)] .
    have unf: "parts_loop L len t ps rw cbi p s =
      (case chars_loop L t ?w cbi p ?to (open_part ?part s) of
         Return r \<Rightarrow> Return r
       | Continue s3 \<Rightarrow> parts_loop L len t ps rw cbi (p + 1) (close_part s3))"
      using lt "1.prems"(5) by (simp add: parts_loop_unfold)
    show ?thesis
    proof (cases "chars_loop L t ?w cbi p ?to (open_part ?part s)")
      case (Return r)
      with R obtain rr where rr: "f3 = Return_ref rr" "deref \<sigma>3 rr = Some r" by auto
      from lt el s1(1) to c rr(1) "1.prems"(1) have "f = Return_ref rr" "\<sigma>' = \<sigma>3"
        by (subst (asm) parts_loop_ref.simps, simp)+
      with rr(2) sb13 unf Return show ?thesis by simp
    next
      case (Continue s3)
      with R obtain l3 where
        l3: "f3 = Continue_ref l3" "load \<sigma>3 l3 = Some s3" "out_l l3 = out_l l1"
            "charOffsetInPartArr_l l3 = charOffsetInPartArr_l l1"
        by auto
      from l3(3,4) d1 have d3: "out_l l3 \<noteq> charOffsetInPartArr_l l3" by simp
      from step_ref_load [OF l3(2) d3, of close_part] obtain \<sigma>4 l4 where
        s4: "step_ref close_part \<sigma>3 l3 = Some (\<sigma>4, l4)"
            "load \<sigma>4 l4 = Some (close_part s3)"
            "out_l l4 = out_l l3" "charOffsetInPartArr_l l4 = charOffsetInPartArr_l l3"
            "same_but l3 \<sigma>3 \<sigma>4"
        by blast
      from s4(3,4) d3 have d4: "out_l l4 \<noteq> charOffsetInPartArr_l l4" by simp
      have sb4: "same_but l \<sigma> \<sigma>4"
        using same_but_trans [OF sb13 s4(5)] l3(3,4) s1(3,4) by simp
      have h4: "holds_tokens \<sigma>4 a ps"
        using holds_tokens_same_but [OF "1.prems"(4,2) sb4] .
      from lt el s1(1) to c l3(1) s4(1) "1.prems"(1) have
        run: "parts_loop_ref L len t a rw cbi n (p + 1) \<sigma>4 l4 = (f, \<sigma>')"
        by (subst (asm) parts_loop_ref.simps) simp
      note IH = "1.IH" [OF lt el s1(1) refl to c [symmetric] l3(1) s4(1) refl run s4(2) d4 h4
          "1.prems"(5)]
      have refs: "out_l l4 = out_l l" "charOffsetInPartArr_l l4 = charOffsetInPartArr_l l"
        using s4(3,4) l3(3,4) s1(3,4) by simp_all
      have sb: "same_but l \<sigma> \<sigma>'"
        using same_but_trans [OF sb4 _ refs] IH by simp
      from IH sb unf Continue refs show ?thesis by (simp split: flow.splits)
    qed
  qed
qed

lemma holds_tokens_kept:
  assumes "unused_above \<sigma>" "holds_tokens \<sigma> a ps" "kept \<sigma> \<sigma>'"
  shows "holds_tokens \<sigma>' a ps"
proof -
  from assms(2) obtain rs where
    rs: "objs \<sigma> a = Some (TokenArr rs)" "length rs = length ps"
        "\<forall>i<length rs. objs \<sigma> (rs ! i) = Some (TokenObj (ps ! i))"
    unfolding holds_tokens_def by blast
  have below: "\<And>x v. objs \<sigma> x = Some v \<Longrightarrow> x < lim \<sigma>"
    using assms(1) unfolding unused_above_def by (metis not_le option.distinct(1))
  from rs(1) below have "objs \<sigma>' a = Some (TokenArr rs)"
    using assms(3) unfolding kept_def by auto
  moreover have "\<forall>i<length rs. objs \<sigma>' (rs ! i) = Some (TokenObj (ps ! i))"
    using rs(3) below assms(3) unfolding kept_def by auto
  ultimately show ?thesis using rs(2) unfolding holds_tokens_def by blast
qed

lemma renderLineActual_ref_refines:
  assumes "unused_above \<sigma>" and "holds_tokens \<sigma> a ps"
  shows "\<exists>res \<sigma>'. renderLineActual_ref L len t a rw cbi \<sigma> = (res, \<sigma>') \<and>
           (\<exists>rr. res = Inr rr \<and> deref \<sigma>' rr = Some (renderLineActual L len t ps rw cbi))"
proof -
  let ?out0 = "lim \<sigma>"
  let ?\<sigma>1 = "\<lparr>objs = (objs \<sigma>)(lim \<sigma> \<mapsto> StringArr []), lim = Suc (lim \<sigma>)\<rparr>"
  let ?arr0 = "Suc (lim \<sigma>)"
  let ?\<sigma>2 = "\<lparr>objs = (objs ?\<sigma>1)(Suc (lim \<sigma>) \<mapsto> NumberArr []), lim = Suc (Suc (lim \<sigma>))\<rparr>"
  let ?\<sigma>3 = "put ?out0 (StringArr [js ''<span>'']) ?\<sigma>2"
  let ?l0 = "\<lparr>charIndex_l = 0, out_l = ?out0, charOffsetInPartArr_l = ?arr0,
                 charOffsetInPart_l = 0, tabsCharDelta_l = 0\<rparr>"
  have k3: "kept \<sigma> ?\<sigma>3" by (simp add: kept_def put_def)
  have h3: "holds_tokens ?\<sigma>3 a ps" using holds_tokens_kept [OF assms k3] .
  have ld: "load ?\<sigma>3 ?l0 = Some initial_scan"
    by (simp add: load_def put_def initial_scan_def)
  have d: "out_l ?l0 \<noteq> charOffsetInPartArr_l ?l0" by simp
  have n: "array_length ?\<sigma>3 a = Some (length ps)" using holds_tokens_length [OF h3] .
  obtain f \<sigma>4 where p: "parts_loop_ref L len t a rw cbi (length ps) 0 ?\<sigma>3 ?l0 = (f, \<sigma>4)"
    by (cases "parts_loop_ref L len t a rw cbi (length ps) 0 ?\<sigma>3 ?l0")
  note R = parts_loop_ref_refines [OF p ld d h3 refl]
  have unf: "renderLineActual_ref L len t a rw cbi \<sigma> =
    (case f of
       Return_ref r \<Rightarrow> (Inr r, \<sigma>4)
     | Throw_ref \<Rightarrow> (Inl TypeError, \<sigma>4)
     | Continue_ref l \<Rightarrow>
         (case step_ref finish_scan \<sigma>4 l of
            None \<Rightarrow> (Inl TypeError, \<sigma>4)
          | Some (\<sigma>5, l5) \<Rightarrow>
              (case array_length \<sigma>5 a of
                 None \<Rightarrow> (Inl TypeError, \<sigma>5)
               | Some n \<Rightarrow>
                   (Inr \<lparr>charOffsetInPart_ref = charOffsetInPartArr_l l5,
                         lastRenderedPartIndex_ref = int n - 1,
                         output_ref = out_l l5\<rparr>, \<sigma>5))))"
    using n p by (simp add: renderLineActual_ref_def alloc_def Let_def)
  show ?thesis
  proof (cases "parts_loop L len t ps rw cbi 0 initial_scan")
    case (Return r)
    with R obtain rr where "f = Return_ref rr" "deref \<sigma>4 rr = Some r" by auto
    with unf Return show ?thesis by (simp add: renderLineActual_def)
  next
    case (Continue s)
    with R obtain l where
      l: "f = Continue_ref l" "load \<sigma>4 l = Some s" "out_l l = out_l ?l0"
         "charOffsetInPartArr_l l = charOffsetInPartArr_l ?l0"
      by auto
    from l(3,4) have dl: "out_l l \<noteq> charOffsetInPartArr_l l" by simp
    from step_ref_load [OF l(2) dl, of finish_scan] obtain \<sigma>5 l5 where
      s5: "step_ref finish_scan \<sigma>4 l = Some (\<sigma>5, l5)"
          "load \<sigma>5 l5 = Some (finish_scan s)" "same_but l \<sigma>4 \<sigma>5"
      by blast
    from R have sb4: "same_but ?l0 ?\<sigma>3 \<sigma>4" by simp
    have h4: "holds_tokens \<sigma>4 a ps" using holds_tokens_same_but [OF h3 ld sb4] .
    have h5: "holds_tokens \<sigma>5 a ps" using holds_tokens_same_but [OF h4 l(2) s5(3)] .
    have n5: "array_length \<sigma>5 a = Some (length ps)" using holds_tokens_length [OF h5] .
    have "deref \<sigma>5 \<lparr>charOffsetInPart_ref = charOffsetInPartArr_l l5,
                         lastRenderedPartIndex_ref = int (length ps) - 1,
                         output_ref = out_l l5\<rparr> =
      Some \<lparr>charOffsetInPart = charOffsetInPartArr s @ [charOffsetInPart' s],
           lastRenderedPartIndex = int (length ps) - 1,
           output = out s @ [js ''</span>'']\<rparr>"
      using load_arrays(1,2) [OF s5(2)] by (simp add: deref_def finish_scan_def)
    with unf l(1) s5(1) n5 Continue show ?thesis by (simp add: renderLineActual_def)
  qed
qed

lemma slice0_refines:
  assumes "unused_above \<sigma>" and "holds_tokens \<sigma> a ps"
  shows "\<exists>\<sigma>1. slice0 a \<sigma> = Some (lim \<sigma>, \<sigma>1) \<and> kept \<sigma> \<sigma>1 \<and> unused_above \<sigma>1 \<and>
           lim \<sigma>1 = Suc (lim \<sigma>) \<and> holds_tokens \<sigma>1 (lim \<sigma>) ps \<and>
           objs \<sigma>1 (lim \<sigma>) = objs \<sigma> a \<and> a \<noteq> lim \<sigma>"
proof -
  from assms(2) obtain rs where
    rs: "objs \<sigma> a = Some (TokenArr rs)" "length rs = length ps"
        "\<forall>i<length rs. objs \<sigma> (rs ! i) = Some (TokenObj (ps ! i))"
    unfolding holds_tokens_def by blast
  let ?\<sigma>1 = "\<lparr>objs = (objs \<sigma>)(lim \<sigma> \<mapsto> TokenArr rs), lim = Suc (lim \<sigma>)\<rparr>"
  have below: "\<And>x v. objs \<sigma> x = Some v \<Longrightarrow> x < lim \<sigma>"
    using assms(1) unfolding unused_above_def by (metis not_le option.distinct(1))
  have sl: "slice0 a \<sigma> = Some (lim \<sigma>, ?\<sigma>1)" using rs(1) by (simp add: slice0_def alloc_def)
  have k: "kept \<sigma> ?\<sigma>1" by (simp add: kept_def)
  have u: "unused_above ?\<sigma>1" using assms(1) by (simp add: unused_above_def)
  have "\<forall>i<length rs. rs ! i \<noteq> lim \<sigma>" using rs(3) below by fastforce
  with rs have h: "holds_tokens ?\<sigma>1 (lim \<sigma>) ps" unfolding holds_tokens_def by simp
  have ne: "a \<noteq> lim \<sigma>" using below [OF rs(1)] by simp
  from sl k u h rs(1) ne show ?thesis by (intro exI [of _ ?\<sigma>1]) simp
qed

subsection \<open>The example of the tab\<close>

text \<open>
  C1, as the code has it: for the line \<open>a<TAB>b\<close> with tab size 4, the single token
  \<open>{startIndex: 0, type: "text"}\<close>, no limit and the whitespace flag off, \<open>renderLine\<close>
  renders \<open>a\<close> verbatim, the tab as three non-breaking spaces and \<open>b\<close> verbatim, inside
  the span of the token, and returns the offset table \<open>[0, 1, 4, 5]\<close>: the tab is
  recorded at offset 1 and is three columns wide, so \<open>b\<close> is at offset 4 and the end of
  the line at offset 5.
\<close>

theorem a_tab_b_renders:
  \<open>renderLine example_a_tab_b =
     Inr \<lparr>charOffsetInPart = [0, 1, 4, 5], lastRenderedPartIndex = 0,
          output = [js ''<span>'', js ''<span class="token '', js ''text'', js ''">'',
                    js ''a'', js ''&nbsp;'', js ''&nbsp;'', js ''&nbsp;'', js ''b'',
                    js ''</span>'', js ''</span>'']\<rparr>\<close>
  by (simp add: example_a_tab_b_def eval_defs)

text \<open>
  C1 as stated gives the offset table \<open>[0, 1, 1, 4]\<close>; the table the code returns on
  that input is another one.
\<close>

theorem a_tab_b_offsets_differ:
  "map_sum id charOffsetInPart (renderLine example_a_tab_b) = Inr [0, 1, 4, 5] \<and>
   map_sum id charOffsetInPart (renderLine example_a_tab_b) \<noteq> Inr [0, 1, 1, 4]"
  by (simp add: example_a_tab_b_def eval_defs)

subsection \<open>The empty line\<close>

text \<open>
  C6: a line of length zero yields, whatever the tokens, the tab size, the limit and the
  whitespace flag are, the one fragment of an empty span holding a non-breaking space,
  \<open>lastRenderedPartIndex = 0\<close> and an empty offset table.
\<close>

theorem empty_line_placeholder:
  "renderLine (input\<lparr>lineContent := []\<rparr>) =
     Inr \<lparr>charOffsetInPart = [], lastRenderedPartIndex = 0,
          output = [js ''<span><span>&nbsp;</span></span>'']\<rparr>"
  by (simp add: renderLine_def)

subsection \<open>Cutting a line short\<close>

text \<open>
  C2: let the limit \<open>L\<close> be at least 1 and at most the length of the line, and let the
  tokens be ordered: at least one, the first at offset 0, the starts strictly
  increasing. Then the index of the cut is \<open>L - 1\<close>; the scan records the \<open>L\<close> characters
  at the indices 0 to \<open>L - 1\<close> and returns at once: its fragments are a prefix of what the
  scan without a limit emits, followed by the marker of the cut as the last fragment.
  Nothing before that last fragment is the marker, unless it is the type label of a
  token rendered so far, which the renderer copies as it is; with no such label the
  marker occurs exactly once. \<open>lastRenderedPartIndex\<close> is the index \<open>k\<close> of the token that
  holds offset \<open>L - 1\<close>: token \<open>k\<close> starts at or before \<open>L - 1\<close>, the next one, if there is
  one, after it, and no other index has this property.
\<close>

theorem truncation_boundary:
  assumes "stopRenderingLineAfter input = L" and "1 \<le> L"
    and "L \<le> int (length (lineContent input))"
    and "ordered_tokens (parts input)"
  shows "charBreakIndex_of input = L - 1 \<and>
     (\<exists>r rF k pre.
        renderLine input = Inr r \<and>
        renderLine (input\<lparr>stopRenderingLineAfter := - 1\<rparr>) = Inr rF \<and>
        cut_short r (output rF) (charOffsetInPart rF) \<and>
        length (charOffsetInPart r) = nat L \<and>
        output r = pre @ [js ''&hellip;</span></span>''] \<and>
        set pre \<inter> {js ''&hellip;</span></span>''} \<subseteq> type ` set (take (Suc k) (parts input)) \<and>
        ((\<forall>q\<in>set (parts input). type q \<noteq> js ''&hellip;</span></span>'') \<longrightarrow>
           count_list (output r) (js ''&hellip;</span></span>'') = 1) \<and>
        lastRenderedPartIndex r = int k \<and> k < length (parts input) \<and>
        startIndex (parts input ! k) \<le> L - 1 \<and>
        (k + 1 < length (parts input) \<longrightarrow> L - 1 < startIndex (parts input ! (k + 1))) \<and>
        (\<forall>k'. k' < length (parts input) \<and> startIndex (parts input ! k') \<le> L - 1 \<and>
              (k' + 1 < length (parts input) \<longrightarrow> L - 1 < startIndex (parts input ! (k' + 1)))
              \<longrightarrow> k' = k))"
proof -
  let ?ell = "js ''&hellip;</span></span>''"
  let ?ps = "parts input"
  from assms(1,2) have cbi: "charBreakIndex_of input = L - 1"
    by (simp add: charBreakIndex_of_def)
  from assms(2,3) have ne: "lineContent input \<noteq> []" by auto
  from assms(4) have ps: "?ps \<noteq> []" and first: "startIndex (hd ?ps) = 0"
    and sorted: "sorted_wrt (<) (map startIndex ?ps)"
    by (simp_all add: ordered_tokens_def)
  from scan_of_flow [OF ps] ne cbi assms(3) obtain r where r: "scan_of input = Return r"
    by auto
  have R: "renderLine input = Inr r" using ne ps r by (simp add: renderLine_scan)
  from renderLine_cut_short [OF ne ps r] obtain rF where
    rF: "renderLine (input\<lparr>stopRenderingLineAfter := - 1\<rparr>) = Inr rF"
        "cut_short r (output rF) (charOffsetInPart rF)"
    by blast
  have len: "length (charOffsetInPart r) = nat L"
    using scan_of_Return_table [OF r] cbi assms(2) by simp
  from scan_of_Return_part [OF r] cbi assms(2) obtain k where
    k: "lastRenderedPartIndex r = int k" "k < length ?ps"
       "\<forall>j<k. startIndex (?ps ! (j + 1)) \<le> L - 1"
       "k + 1 < length ?ps \<longrightarrow> L - 1 < startIndex (?ps ! (k + 1))"
    by auto
  have start: "startIndex (?ps ! k) \<le> L - 1"
  proof (cases k)
    case 0
    with first ps assms(2) show ?thesis by (simp add: hd_conv_nth)
  next
    case (Suc j)
    with k(3) show ?thesis by auto
  qed
  from scan_of_Return_output [OF r k(1)] obtain pre where
    pre: "output r = pre @ [?ell]" "set pre \<inter> marked \<subseteq> type ` set (take (Suc k) ?ps)"
    by blast
  have ell: "?ell \<in> marked" by (simp add: marked_def)
  from pre(2) ell have sub: "set pre \<inter> {?ell} \<subseteq> type ` set (take (Suc k) ?ps)" by auto
  have cnt: "(\<forall>q\<in>set ?ps. type q \<noteq> ?ell) \<longrightarrow> count_list (output r) ?ell = 1"
  proof
    assume a: "\<forall>q\<in>set ?ps. type q \<noteq> ?ell"
    have "?ell \<notin> set pre"
    proof
      assume "?ell \<in> set pre"
      with sub obtain q where "q \<in> set (take (Suc k) ?ps)" "type q = ?ell" by auto
      with a show False by (auto dest: in_set_takeD)
    qed
    then have "count_list pre ?ell = 0" by (simp add: count_list_0_iff)
    with pre(1) show "count_list (output r) ?ell = 1" by simp
  qed
  have uniq: "\<forall>k'. k' < length ?ps \<and> startIndex (?ps ! k') \<le> L - 1 \<and>
              (k' + 1 < length ?ps \<longrightarrow> L - 1 < startIndex (?ps ! (k' + 1)))
              \<longrightarrow> k' = k"
    using ordered_tokens_unique [OF sorted k(2) start k(4)] by blast
  have "renderLine input = Inr r \<and>
        renderLine (input\<lparr>stopRenderingLineAfter := - 1\<rparr>) = Inr rF \<and>
        cut_short r (output rF) (charOffsetInPart rF) \<and>
        length (charOffsetInPart r) = nat L \<and>
        output r = pre @ [?ell] \<and>
        set pre \<inter> {?ell} \<subseteq> type ` set (take (Suc k) ?ps) \<and>
        ((\<forall>q\<in>set ?ps. type q \<noteq> ?ell) \<longrightarrow> count_list (output r) ?ell = 1) \<and>
        lastRenderedPartIndex r = int k \<and> k < length ?ps \<and>
        startIndex (?ps ! k) \<le> L - 1 \<and>
        (k + 1 < length ?ps \<longrightarrow> L - 1 < startIndex (?ps ! (k + 1))) \<and>
        (\<forall>k'. k' < length ?ps \<and> startIndex (?ps ! k') \<le> L - 1 \<and>
              (k' + 1 < length ?ps \<longrightarrow> L - 1 < startIndex (?ps ! (k' + 1)))
              \<longrightarrow> k' = k)"
    using R rF(1) rF(2) len pre(1) sub cnt k(1) k(2) start k(4) uniq
    by (intro conjI) assumption+
  then have "\<exists>r rF k pre.
        renderLine input = Inr r \<and>
        renderLine (input\<lparr>stopRenderingLineAfter := - 1\<rparr>) = Inr rF \<and>
        cut_short r (output rF) (charOffsetInPart rF) \<and>
        length (charOffsetInPart r) = nat L \<and>
        output r = pre @ [?ell] \<and>
        set pre \<inter> {?ell} \<subseteq> type ` set (take (Suc k) ?ps) \<and>
        ((\<forall>q\<in>set ?ps. type q \<noteq> ?ell) \<longrightarrow> count_list (output r) ?ell = 1) \<and>
        lastRenderedPartIndex r = int k \<and> k < length ?ps \<and>
        startIndex (?ps ! k) \<le> L - 1 \<and>
        (k + 1 < length ?ps \<longrightarrow> L - 1 < startIndex (?ps ! (k + 1))) \<and>
        (\<forall>k'. k' < length ?ps \<and> startIndex (?ps ! k') \<le> L - 1 \<and>
              (k' + 1 < length ?ps \<longrightarrow> L - 1 < startIndex (?ps ! (k' + 1)))
              \<longrightarrow> k' = k)"
    by (intro exI)
  with cbi show ?thesis by (rule conjI)
qed

theorem truncation_boundary_witness:
  \<open>stopRenderingLineAfter example_cut = 3 \<and> (1::int) \<le> 3 \<and>
   3 \<le> int (length (lineContent example_cut)) \<and> ordered_tokens (parts example_cut) \<and>
   js ''&hellip;</span></span>'' \<notin> type ` set (parts example_cut) \<and>
   charBreakIndex_of example_cut = 2 \<and>
   (\<exists>r rF.
      renderLine example_cut = Inr r \<and>
      renderLine (example_cut\<lparr>stopRenderingLineAfter := - 1\<rparr>) = Inr rF \<and>
      cut_short r (output rF) (charOffsetInPart rF) \<and>
      length (charOffsetInPart r) = 3 \<and>
      last (output r) = js ''&hellip;</span></span>'' \<and>
      count_list (output r) (js ''&hellip;</span></span>'') = 1 \<and>
      lastRenderedPartIndex r = 1) \<and>
   renderLine example_cut =
     Inr \<lparr>charOffsetInPart = [0, 1, 1], lastRenderedPartIndex = 1,
          output = [js ''<span>'', js ''<span class="token '', js ''x'', js ''">'', js ''a'',
                    js ''b'', js ''</span>'', js ''<span class="token '', js ''y'', js ''">'',
                    js ''&lt;'', js ''&hellip;</span></span>'']\<rparr>\<close>
proof -
  let ?ell = "js ''&hellip;</span></span>''"
  let ?ps = "parts example_cut"
  have h1: "stopRenderingLineAfter example_cut = 3" by (simp add: example_cut_def)
  have h2: "(1::int) \<le> 3" by simp
  have h3: "3 \<le> int (length (lineContent example_cut))" by (simp add: example_cut_def js_def)
  have h4: "ordered_tokens ?ps"
    by (simp add: example_cut_def ordered_tokens_def)
  have h5: "?ell \<notin> type ` set ?ps" by (simp add: example_cut_def js_def)
  note t = truncation_boundary [OF h1 h2 h3 h4]
  from t have c: "charBreakIndex_of example_cut = 2" by simp
  from t obtain r rF k pre where
    r: "renderLine example_cut = Inr r"
       "renderLine (example_cut\<lparr>stopRenderingLineAfter := - 1\<rparr>) = Inr rF"
       "cut_short r (output rF) (charOffsetInPart rF)"
       "length (charOffsetInPart r) = nat 3"
       "output r = pre @ [?ell]"
       "(\<forall>q\<in>set ?ps. type q \<noteq> ?ell) \<longrightarrow> count_list (output r) ?ell = 1"
       "lastRenderedPartIndex r = int k" and
    u: "\<forall>k'. k' < length ?ps \<and> startIndex (?ps ! k') \<le> 3 - 1 \<and>
              (k' + 1 < length ?ps \<longrightarrow> 3 - 1 < startIndex (?ps ! (k' + 1)))
              \<longrightarrow> k' = k"
    by blast
  have "1 < length ?ps \<and> startIndex (?ps ! 1) \<le> 3 - 1 \<and>
        (1 + 1 < length ?ps \<longrightarrow> 3 - 1 < startIndex (?ps ! (1 + 1)))"
    by (simp add: example_cut_def)
  with u have k: "1 = k" by blast
  from h5 have "\<forall>q\<in>set ?ps. type q \<noteq> ?ell" by (metis imageI)
  with r(6) have n: "count_list (output r) ?ell = 1" by (rule mp)
  from r(4) have l: "length (charOffsetInPart r) = 3" by simp
  from r(5) have la: "last (output r) = ?ell" by simp
  from r(7) k have i: "lastRenderedPartIndex r = 1" by simp
  from r(1,2,3) l la n i have e: "\<exists>r rF.
      renderLine example_cut = Inr r \<and>
      renderLine (example_cut\<lparr>stopRenderingLineAfter := - 1\<rparr>) = Inr rF \<and>
      cut_short r (output rF) (charOffsetInPart rF) \<and>
      length (charOffsetInPart r) = 3 \<and>
      last (output r) = ?ell \<and>
      count_list (output r) ?ell = 1 \<and>
      lastRenderedPartIndex r = 1"
    by blast
  have v: \<open>renderLine example_cut =
     Inr \<lparr>charOffsetInPart = [0, 1, 1], lastRenderedPartIndex = 1,
          output = [js ''<span>'', js ''<span class="token '', js ''x'', js ''">'', js ''a'',
                    js ''b'', js ''</span>'', js ''<span class="token '', js ''y'', js ''">'',
                    js ''&lt;'', js ''&hellip;</span></span>'']\<rparr>\<close>
    by (simp add: example_cut_def eval_defs)
  from h1 h2 h3 h4 h5 c e v show ?thesis by (intro conjI) assumption+
qed

subsection \<open>The shape of the offset table\<close>

text \<open>
  C3: on a non-empty line with at least one token, let \<open>sF\<close> be the variables with which
  the scan without a limit ends; its table holds one entry for each character of the
  line. If the index of the cut is beyond the line, nothing is cut: the table returned
  is that table and one more entry, the offset counter as the scan ends. Otherwise the
  scan is cut at the index \<open>b\<close> of the cut (0 when that index is negative): the table
  returned holds the entries of the characters before \<open>b\<close>, and for the character at \<open>b\<close>
  its entry plus one, with no entry after it; this is so wherever in its token the
  character at \<open>b\<close> stands.
\<close>

theorem offset_table_shape:
  assumes "lineContent input \<noteq> []" and "parts input \<noteq> []"
  shows "\<exists>sF r.
     scan_of (input\<lparr>stopRenderingLineAfter := - 1\<rparr>) = Continue sF \<and>
     length (charOffsetInPartArr sF) = length (lineContent input) \<and>
     renderLine input = Inr r \<and>
     (if charBreakIndex_of input < int (length (lineContent input))
      then charOffsetInPart r =
             take (nat (charBreakIndex_of input)) (charOffsetInPartArr sF) @
               [charOffsetInPartArr sF ! nat (charBreakIndex_of input) + 1] \<and>
           length (charOffsetInPart r) = nat (charBreakIndex_of input) + 1
      else charOffsetInPart r = charOffsetInPartArr sF @ [charOffsetInPart' sF] \<and>
           length (charOffsetInPart r) = length (lineContent input) + 1)"
proof (cases "charBreakIndex_of input < int (length (lineContent input))")
  case True
  with assms scan_of_flow [of input] obtain r where r: "scan_of input = Return r" by auto
  from scan_of_cut [OF r] obtain sF where
    sF: "scan_of (input\<lparr>stopRenderingLineAfter := - 1\<rparr>) = Continue sF"
        "cut_short r (out sF) (charOffsetInPartArr sF)"
    by blast
  from scan_of_unlimited [OF assms(2)] sF(1)
  have len: "length (charOffsetInPartArr sF) = length (lineContent input)" by simp
  from sF(2) obtain pre v ys where
    c: "charOffsetInPart r = pre @ [v + 1]" "charOffsetInPartArr sF = pre @ v # ys"
    unfolding cut_short_def by blast
  from scan_of_Return_table [OF r] c(1)
  have lp: "length pre = nat (charBreakIndex_of input)" by simp
  have "charOffsetInPart r =
             take (nat (charBreakIndex_of input)) (charOffsetInPartArr sF) @
               [charOffsetInPartArr sF ! nat (charBreakIndex_of input) + 1]"
    using c lp by (simp add: nth_append)
  moreover have "renderLine input = Inr r"
    using assms r by (simp add: renderLine_scan)
  ultimately show ?thesis
    using True sF(1) len scan_of_Return_table [OF r] by auto
next
  case False
  with assms scan_of_flow [of input] obtain s where s: "scan_of input = Continue s"
    by (cases "scan_of input") auto
  from scan_of_not_cut [OF s assms(2,1)]
  have u: "scan_of (input\<lparr>stopRenderingLineAfter := - 1\<rparr>) = Continue s" .
  from scan_of_unlimited [OF assms(2)] u
  have len: "length (charOffsetInPartArr s) = length (lineContent input)" by simp
  show ?thesis
    using False u len assms s by (simp add: renderLine_scan)
qed

theorem offset_table_shape_witness:
  "lineContent example_cut \<noteq> [] \<and> parts example_cut \<noteq> [] \<and>
   charBreakIndex_of example_cut = 2 \<and> length (lineContent example_cut) = 4 \<and>
   (\<exists>sF r.
      scan_of (example_cut\<lparr>stopRenderingLineAfter := - 1\<rparr>) = Continue sF \<and>
      length (charOffsetInPartArr sF) = 4 \<and>
      renderLine example_cut = Inr r \<and>
      charOffsetInPart r = take 2 (charOffsetInPartArr sF) @ [charOffsetInPartArr sF ! 2 + 1] \<and>
      length (charOffsetInPart r) = 3) \<and>
   map_sum id charOffsetInPart (renderLine example_cut) = Inr [0, 1, 1] \<and>
   lineContent example_two_tokens \<noteq> [] \<and> parts example_two_tokens \<noteq> [] \<and>
   charBreakIndex_of example_two_tokens = 3 \<and> length (lineContent example_two_tokens) = 3 \<and>
   (\<exists>sF r.
      scan_of (example_two_tokens\<lparr>stopRenderingLineAfter := - 1\<rparr>) = Continue sF \<and>
      length (charOffsetInPartArr sF) = 3 \<and>
      renderLine example_two_tokens = Inr r \<and>
      charOffsetInPart r = charOffsetInPartArr sF @ [charOffsetInPart' sF] \<and>
      length (charOffsetInPart r) = 4) \<and>
   map_sum id charOffsetInPart (renderLine example_two_tokens) = Inr [0, 1, 0, 1]"
proof -
  have h1: "lineContent example_cut \<noteq> []" by (simp add: example_cut_def js_def)
  have h2: "parts example_cut \<noteq> []" by (simp add: example_cut_def)
  have c: "charBreakIndex_of example_cut = 2" by (simp add: example_cut_def charBreakIndex_of_def)
  have n: "length (lineContent example_cut) = 4" by (simp add: example_cut_def js_def)
  from offset_table_shape [OF h1 h2] c n have e: "\<exists>sF r.
      scan_of (example_cut\<lparr>stopRenderingLineAfter := - 1\<rparr>) = Continue sF \<and>
      length (charOffsetInPartArr sF) = 4 \<and>
      renderLine example_cut = Inr r \<and>
      charOffsetInPart r = take 2 (charOffsetInPartArr sF) @ [charOffsetInPartArr sF ! 2 + 1] \<and>
      length (charOffsetInPart r) = 3"
    by simp
  have v: "map_sum id charOffsetInPart (renderLine example_cut) = Inr [0, 1, 1]"
    by (simp add: example_cut_def eval_defs)
  have h1': "lineContent example_two_tokens \<noteq> []" by (simp add: example_two_tokens_def js_def)
  have h2': "parts example_two_tokens \<noteq> []" by (simp add: example_two_tokens_def)
  have c': "charBreakIndex_of example_two_tokens = 3"
    by (simp add: example_two_tokens_def charBreakIndex_of_def js_def)
  have n': "length (lineContent example_two_tokens) = 3"
    by (simp add: example_two_tokens_def js_def)
  from offset_table_shape [OF h1' h2'] c' n' have e': "\<exists>sF r.
      scan_of (example_two_tokens\<lparr>stopRenderingLineAfter := - 1\<rparr>) = Continue sF \<and>
      length (charOffsetInPartArr sF) = 3 \<and>
      renderLine example_two_tokens = Inr r \<and>
      charOffsetInPart r = charOffsetInPartArr sF @ [charOffsetInPart' sF] \<and>
      length (charOffsetInPart r) = 4"
    by simp
  have v': "map_sum id charOffsetInPart (renderLine example_two_tokens) = Inr [0, 1, 0, 1]"
    by (simp add: example_two_tokens_def eval_defs)
  from h1 h2 c n e v h1' h2' c' n' e' v' show ?thesis by (intro conjI) assumption+
qed

subsection \<open>When the renderer fails\<close>

text \<open>
  C4: \<open>renderLine\<close> fails if and only if the line is not empty and there is no token, and
  then with the one error; for every other input it returns a result, and the result is
  well formed: there are fragments, the first opens the outer span, the last closes a
  span, the offset table has at most one entry more than the line has characters, and
  \<open>lastRenderedPartIndex\<close> is not negative and below the number of tokens (it is 0 for
  an empty line). No condition is put on the tab size, the limit or the tokens. Every
  function of the model is total: the scan ends on every input.
\<close>

theorem renderLine_fails_iff:
  "(\<exists>e. renderLine input = Inl e) = (lineContent input \<noteq> [] \<and> parts input = []) \<and>
   (\<exists>r. renderLine input = Inr r) = (lineContent input = [] \<or> parts input \<noteq> []) \<and>
   (case renderLine input of
      Inl e \<Rightarrow> e = Error (js ''Cannot render non empty line without line parts!'')
    | Inr r \<Rightarrow>
        output r \<noteq> [] \<and>
        take 6 (hd (output r)) = js ''<span>'' \<and>
        drop (length (last (output r)) - 7) (last (output r)) = js ''</span>'' \<and>
        length (charOffsetInPart r) \<le> length (lineContent input) + 1 \<and>
        0 \<le> lastRenderedPartIndex r \<and>
        lastRenderedPartIndex r < max 1 (int (length (parts input))))"
proof -
  have a: "(\<exists>e. renderLine input = Inl e) = (lineContent input \<noteq> [] \<and> parts input = [])"
    by (auto simp add: renderLine_def Let_def)
  have b: "(\<exists>r. renderLine input = Inr r) = (lineContent input = [] \<or> parts input \<noteq> [])"
    by (auto simp add: renderLine_def Let_def)
  have c: "case renderLine input of
      Inl e \<Rightarrow> e = Error (js ''Cannot render non empty line without line parts!'')
    | Inr r \<Rightarrow>
        output r \<noteq> [] \<and>
        take 6 (hd (output r)) = js ''<span>'' \<and>
        drop (length (last (output r)) - 7) (last (output r)) = js ''</span>'' \<and>
        length (charOffsetInPart r) \<le> length (lineContent input) + 1 \<and>
        0 \<le> lastRenderedPartIndex r \<and>
        lastRenderedPartIndex r < max 1 (int (length (parts input)))"
  proof (cases "lineContent input = []")
    case True
    then have "renderLine input = Inr \<lparr>charOffsetInPart = [], lastRenderedPartIndex = 0,
          output = [js ''<span><span>&nbsp;</span></span>'']\<rparr>"
      by (simp add: renderLine_def)
    then show ?thesis by (simp add: js_def)
  next
    case ne: False
    show ?thesis
    proof (cases "parts input = []")
      case True
      with ne show ?thesis by (simp add: renderLine_def Let_def)
    next
      case ps: False
      show ?thesis
      proof (cases "scan_of input")
        case (Return r)
        from scan_of_Return_shape [OF Return] obtain mid where
          o: "output r = js ''<span>'' # mid @ [js ''&hellip;</span></span>'']" by blast
        from scan_of_flow [OF ps] Return
        have "charBreakIndex_of input < int (length (lineContent input))" by blast
        with scan_of_Return_table [OF Return]
        have t: "length (charOffsetInPart r) \<le> length (lineContent input) + 1" by simp
        from scan_of_Return_part [OF Return] obtain k where
          "lastRenderedPartIndex r = int k" "k < length (parts input)" by blast
        then have l: "0 \<le> lastRenderedPartIndex r"
          "lastRenderedPartIndex r < max 1 (int (length (parts input)))" by simp_all
        have "renderLine input = Inr r" using ne ps Return by (simp add: renderLine_scan)
        with o t l show ?thesis by (simp add: js_def)
      next
        case (Continue s)
        from scan_of_Continue_shape [OF Continue] obtain mid where
          o: "out s = js ''<span>'' # mid" by blast
        from scan_of_not_cut [OF Continue ps ne] scan_of_unlimited [OF ps]
        have t: "length (charOffsetInPartArr s) = length (lineContent input)" by simp
        have "renderLine input =
          Inr \<lparr>charOffsetInPart = charOffsetInPartArr s @ [charOffsetInPart' s],
               lastRenderedPartIndex = int (length (parts input)) - 1,
               output = out s @ [js ''</span>'']\<rparr>"
          using ne ps Continue by (simp add: renderLine_scan)
        with o t ps show ?thesis by (simp add: js_def)
      qed
    qed
  qed
  from a b c show ?thesis by (intro conjI) assumption+
qed

text \<open>
  Inputs at the edge return a result too: tab size 1 with a limit of 0, where the first
  character is rendered and the line is cut; the same with a limit of 1; the empty line
  with no token.
\<close>

lemma degenerate_inputs_render:
  \<open>renderLine example_degenerate =
     Inr \<lparr>charOffsetInPart = [1], lastRenderedPartIndex = 0,
          output = [js ''<span>'', js ''<span class="token '', js ''whitespace'', js ''">'',
                    js ''&rarr;'', js ''&hellip;</span></span>'']\<rparr>\<close>
  "renderLine (example_degenerate\<lparr>stopRenderingLineAfter := 1\<rparr>) = renderLine example_degenerate"
  "renderLine (example_degenerate\<lparr>lineContent := [], parts := []\<rparr>) =
     Inr \<lparr>charOffsetInPart = [], lastRenderedPartIndex = 0,
          output = [js ''<span><span>&nbsp;</span></span>'']\<rparr>"
  "isWhitespace (js ''whitespace'')"
  by (simp_all add: example_degenerate_def eval_defs isWhitespace_def matchesHere_def
      isWordChar_def)

subsection \<open>Tabs\<close>

text \<open>
  C5: at a tab that a scan comes to with a tab size of at least 1, \<open>charIndex +
  tabsCharDelta\<close> is not negative, so that the remainder of JavaScript is the
  mathematical one, and the switch computes \<open>insertSpacesCount = tabSize - (charIndex +
  tabsCharDelta) mod tabSize\<close>, adds \<open>insertSpacesCount - 1\<close> to the tab delta and to
  the offset counter of the token, and pushes exactly \<open>insertSpacesCount\<close> fragments:
  first the arrow if the token shows its whitespace, a non-breaking space if not, then
  \<open>insertSpacesCount - 1\<close> non-breaking spaces.
\<close>

theorem tab_expansion:
  assumes "1 \<le> tabSize0" and "reached lineText tabSize0 s"
    and "charCodeAt lineText (charIndex s) = Some c_tab"
  shows "0 \<le> int (charIndex s) + tabsCharDelta s \<and>
         insertSpacesCount tabSize0 (charIndex s) (tabsCharDelta s) =
           tabSize0 - (int (charIndex s) + tabsCharDelta s) mod tabSize0 \<and>
         tabsCharDelta (switch_charCode lineText tabSize0 w s) =
           tabsCharDelta s + (insertSpacesCount tabSize0 (charIndex s) (tabsCharDelta s) - 1) \<and>
         charOffsetInPart' (switch_charCode lineText tabSize0 w s) =
           charOffsetInPart' s + (insertSpacesCount tabSize0 (charIndex s) (tabsCharDelta s) - 1) \<and>
         out (switch_charCode lineText tabSize0 w s) =
           out s @ (if w then js ''&rarr;'' else js ''&nbsp;'') #
             replicate (nat (insertSpacesCount tabSize0 (charIndex s) (tabsCharDelta s) - 1))
               (js ''&nbsp;'') \<and>
         int (length (out (switch_charCode lineText tabSize0 w s))) =
           int (length (out s)) + insertSpacesCount tabSize0 (charIndex s) (tabsCharDelta s)"
proof -
  have sw: "switch_charCode lineText tabSize0 w s = case_tab tabSize0 w s"
    using assms(3) by (simp add: switch_charCode_def)
  from reached_delta [OF assms(2,1)] have d: "0 \<le> tabsCharDelta s" .
  from insertSpacesCount_pos [OF assms(1), of "charIndex s" "tabsCharDelta s"]
  have pos: "1 \<le> insertSpacesCount tabSize0 (charIndex s) (tabsCharDelta s)" .
  show ?thesis
    unfolding sw
    using d pos insertSpacesCount_mod [OF assms(1) d] case_tab_out [OF assms(1)]
    by (simp add: case_tab_delta case_tab_offset)
qed

theorem tab_expansion_witness:
  "(1::int) \<le> 4 \<and> reached (lineContent example_a_tab_b) 4 example_tab_state \<and>
   charCodeAt (lineContent example_a_tab_b) (charIndex example_tab_state) = Some c_tab \<and>
   (0 \<le> int (charIndex example_tab_state) + tabsCharDelta example_tab_state \<and>
         insertSpacesCount 4 (charIndex example_tab_state) (tabsCharDelta example_tab_state) =
           4 - (int (charIndex example_tab_state) + tabsCharDelta example_tab_state) mod 4 \<and>
         tabsCharDelta (switch_charCode (lineContent example_a_tab_b) 4 False example_tab_state) =
           tabsCharDelta example_tab_state + (insertSpacesCount 4 (charIndex example_tab_state) (tabsCharDelta example_tab_state) - 1) \<and>
         charOffsetInPart' (switch_charCode (lineContent example_a_tab_b) 4 False example_tab_state) =
           charOffsetInPart' example_tab_state + (insertSpacesCount 4 (charIndex example_tab_state) (tabsCharDelta example_tab_state) - 1) \<and>
         out (switch_charCode (lineContent example_a_tab_b) 4 False example_tab_state) =
           out example_tab_state @ (if False then js ''&rarr;'' else js ''&nbsp;'') #
             replicate (nat (insertSpacesCount 4 (charIndex example_tab_state) (tabsCharDelta example_tab_state) - 1))
               (js ''&nbsp;'') \<and>
         int (length (out (switch_charCode (lineContent example_a_tab_b) 4 False example_tab_state))) =
           int (length (out example_tab_state)) + insertSpacesCount 4 (charIndex example_tab_state) (tabsCharDelta example_tab_state)) \<and>
   insertSpacesCount 4 (charIndex example_tab_state) (tabsCharDelta example_tab_state) = 3"
proof -
  have h1: "(1::int) \<le> 4" by simp
  note h2 = example_tab_state_reached
  have h3: "charCodeAt (lineContent example_a_tab_b) (charIndex example_tab_state) = Some c_tab"
    by (simp add: example_tab_state_def example_a_tab_b_def charCodeAt_def js_def)
  note t = tab_expansion [OF h1 h2 h3, of False]
  have v: "insertSpacesCount 4 (charIndex example_tab_state) (tabsCharDelta example_tab_state) = 3"
    by (simp add: example_tab_state_def insertSpacesCount_def js_rem_def)
  show ?thesis by (rule conjI [OF h1 conjI [OF h2 conjI [OF h3 conjI [OF t v]]]])
qed


text \<open>
  C10 as stated has the offset counter of the token never decrease during a call. The
  counter starts again at 0 with every token: on \<open>abc\<close> in two tokens it is recorded as 1
  at the second character and as 0 at the third.
\<close>

theorem two_tokens_offset_drops:
  "map_sum id charOffsetInPart (renderLine example_two_tokens) = Inr [0, 1, 0, 1]"
  by (simp add: example_two_tokens_def eval_defs)

text \<open>
  C10, as the code has it: with a tab size of at least 1, wherever a scan comes to,
  \<open>charIndex + tabsCharDelta\<close> is not negative, the remainder lies between 0 and
  \<open>tabSize - 1\<close> and \<open>insertSpacesCount\<close> between 1 and \<open>tabSize\<close>, and a tab pushes
  that many fragments. Every character leaves the tab delta as it is or greater and
  moves the offset counter on; so neither decreases while the characters of one token
  are scanned, and the tab delta never decreases over the tokens. Opening a token keeps
  the tab delta and sets the offset counter to 0.
\<close>

theorem tab_stop_bounds:
  assumes "1 \<le> tabSize0"
  shows "(reached lineText tabSize0 s \<longrightarrow>
            0 \<le> int (charIndex s) + tabsCharDelta s \<and>
            0 \<le> (int (charIndex s) + tabsCharDelta s) mod tabSize0 \<and>
            (int (charIndex s) + tabsCharDelta s) mod tabSize0 \<le> tabSize0 - 1 \<and>
            insertSpacesCount tabSize0 (charIndex s) (tabsCharDelta s) =
              tabSize0 - (int (charIndex s) + tabsCharDelta s) mod tabSize0 \<and>
            1 \<le> insertSpacesCount tabSize0 (charIndex s) (tabsCharDelta s) \<and>
            insertSpacesCount tabSize0 (charIndex s) (tabsCharDelta s) \<le> tabSize0) \<and>
         (reached lineText tabSize0 s \<and> charCodeAt lineText (charIndex s) = Some c_tab \<longrightarrow>
            int (length (out (switch_charCode lineText tabSize0 w s))) =
              int (length (out s)) + insertSpacesCount tabSize0 (charIndex s) (tabsCharDelta s)) \<and>
         tabsCharDelta s \<le> tabsCharDelta (char_step lineText tabSize0 w s) \<and>
         charOffsetInPart' s < charOffsetInPart' (char_step lineText tabSize0 w s) \<and>
         (chars_loop lineText tabSize0 w cbi p to s = Continue s' \<longrightarrow>
            tabsCharDelta s \<le> tabsCharDelta s' \<and> charOffsetInPart' s \<le> charOffsetInPart' s' \<and>
            (reached lineText tabSize0 s \<longrightarrow> reached lineText tabSize0 s')) \<and>
         (parts_loop lineText len tabSize0 ps rw cbi p s = Continue s'' \<longrightarrow>
            tabsCharDelta s \<le> tabsCharDelta s'' \<and>
            (reached lineText tabSize0 s \<longrightarrow> reached lineText tabSize0 s'')) \<and>
         charOffsetInPart' (open_part q s) = 0 \<and>
         tabsCharDelta (open_part q s) = tabsCharDelta s"
proof -
  have a: "reached lineText tabSize0 s \<longrightarrow>
            0 \<le> int (charIndex s) + tabsCharDelta s \<and>
            0 \<le> (int (charIndex s) + tabsCharDelta s) mod tabSize0 \<and>
            (int (charIndex s) + tabsCharDelta s) mod tabSize0 \<le> tabSize0 - 1 \<and>
            insertSpacesCount tabSize0 (charIndex s) (tabsCharDelta s) =
              tabSize0 - (int (charIndex s) + tabsCharDelta s) mod tabSize0 \<and>
            1 \<le> insertSpacesCount tabSize0 (charIndex s) (tabsCharDelta s) \<and>
            insertSpacesCount tabSize0 (charIndex s) (tabsCharDelta s) \<le> tabSize0"
  proof
    assume "reached lineText tabSize0 s"
    from reached_delta [OF this assms] have d: "0 \<le> tabsCharDelta s" .
    from d assms insertSpacesCount_pos [OF assms, of "charIndex s" "tabsCharDelta s"]
      insertSpacesCount_le [OF assms d, of "charIndex s"]
      insertSpacesCount_mod [OF assms d, of "charIndex s"]
      pos_mod_bound [of tabSize0 "int (charIndex s) + tabsCharDelta s"]
    show "0 \<le> int (charIndex s) + tabsCharDelta s \<and>
            0 \<le> (int (charIndex s) + tabsCharDelta s) mod tabSize0 \<and>
            (int (charIndex s) + tabsCharDelta s) mod tabSize0 \<le> tabSize0 - 1 \<and>
            insertSpacesCount tabSize0 (charIndex s) (tabsCharDelta s) =
              tabSize0 - (int (charIndex s) + tabsCharDelta s) mod tabSize0 \<and>
            1 \<le> insertSpacesCount tabSize0 (charIndex s) (tabsCharDelta s) \<and>
            insertSpacesCount tabSize0 (charIndex s) (tabsCharDelta s) \<le> tabSize0"
      by simp
  qed
  have b: "reached lineText tabSize0 s \<and> charCodeAt lineText (charIndex s) = Some c_tab \<longrightarrow>
            int (length (out (switch_charCode lineText tabSize0 w s))) =
              int (length (out s)) + insertSpacesCount tabSize0 (charIndex s) (tabsCharDelta s)"
  proof
    assume h: "reached lineText tabSize0 s \<and> charCodeAt lineText (charIndex s) = Some c_tab"
    then have sw: "switch_charCode lineText tabSize0 w s = case_tab tabSize0 w s"
      by (simp add: switch_charCode_def)
    from insertSpacesCount_pos [OF assms, of "charIndex s" "tabsCharDelta s"]
      case_tab_out [OF assms, of w s]
    show "int (length (out (switch_charCode lineText tabSize0 w s))) =
              int (length (out s)) + insertSpacesCount tabSize0 (charIndex s) (tabsCharDelta s)"
      unfolding sw by simp
  qed
  have c: "tabsCharDelta s \<le> tabsCharDelta (char_step lineText tabSize0 w s)"
    and d: "charOffsetInPart' s < charOffsetInPart' (char_step lineText tabSize0 w s)"
    using char_step_mono [OF assms] by simp_all
  have e: "chars_loop lineText tabSize0 w cbi p to s = Continue s' \<longrightarrow>
            tabsCharDelta s \<le> tabsCharDelta s' \<and> charOffsetInPart' s \<le> charOffsetInPart' s' \<and>
            (reached lineText tabSize0 s \<longrightarrow> reached lineText tabSize0 s')"
    using chars_loop_Continue [of lineText tabSize0 w cbi p to s s'] assms
      chars_loop_reached [where L = lineText and t = tabSize0 and s = s and w = w
        and cbi = cbi and p = p and to = to]
    by auto
  have f: "parts_loop lineText len tabSize0 ps rw cbi p s = Continue s'' \<longrightarrow>
            tabsCharDelta s \<le> tabsCharDelta s'' \<and>
            (reached lineText tabSize0 s \<longrightarrow> reached lineText tabSize0 s'')"
    using parts_loop_Continue [of lineText len tabSize0 ps rw cbi p s s''] assms
      parts_loop_reached [where L = lineText and t = tabSize0 and s = s and len = len
        and ps = ps and rw = rw and cbi = cbi and p = p]
    by auto
  have g: "charOffsetInPart' (open_part q s) = 0"
    and h: "tabsCharDelta (open_part q s) = tabsCharDelta s"
    by simp_all
  from a b c d e f g h show ?thesis by (intro conjI) assumption+
qed

theorem tab_stop_bounds_witness:
  "(1::int) \<le> 4 \<and> reached (lineContent example_a_tab_b) 4 example_tab_state \<and>
   charCodeAt (lineContent example_a_tab_b) (charIndex example_tab_state) = Some c_tab \<and>
   0 \<le> int (charIndex example_tab_state) + tabsCharDelta example_tab_state \<and>
   1 \<le> insertSpacesCount 4 (charIndex example_tab_state) (tabsCharDelta example_tab_state) \<and>
   insertSpacesCount 4 (charIndex example_tab_state) (tabsCharDelta example_tab_state) \<le> 4 \<and>
   int (length (out (switch_charCode (lineContent example_a_tab_b) 4 False example_tab_state))) =
     int (length (out example_tab_state)) +
       insertSpacesCount 4 (charIndex example_tab_state) (tabsCharDelta example_tab_state) \<and>
   (\<exists>s'. chars_loop (lineContent example_a_tab_b) 4 False 3 0 3 example_tab_state = Continue s' \<and>
      tabsCharDelta example_tab_state \<le> tabsCharDelta s' \<and>
      charOffsetInPart' example_tab_state \<le> charOffsetInPart' s' \<and>
      reached (lineContent example_a_tab_b) 4 s') \<and>
   (\<exists>s''. parts_loop (lineContent example_a_tab_b) 3 4 (parts example_a_tab_b) False 3 0
            example_tab_state = Continue s'' \<and>
      tabsCharDelta example_tab_state \<le> tabsCharDelta s'' \<and>
      reached (lineContent example_a_tab_b) 4 s'')"
proof -
  let ?L = "lineContent example_a_tab_b"
  have h1: "(1::int) \<le> 4" by simp
  note h2 = example_tab_state_reached
  have h3: "charCodeAt ?L (charIndex example_tab_state) = Some c_tab"
    by (simp add: example_tab_state_def example_a_tab_b_def charCodeAt_def js_def)
  have "\<exists>s'. chars_loop ?L 4 False 3 0 3 example_tab_state = Continue s'"
    by (simp add: example_tab_state_def example_a_tab_b_def eval_defs)
  then obtain s' where h4: "chars_loop ?L 4 False 3 0 3 example_tab_state = Continue s'" ..
  have "\<exists>s''. parts_loop ?L 3 4 (parts example_a_tab_b) False 3 0 example_tab_state = Continue s''"
    by (simp add: example_tab_state_def example_a_tab_b_def eval_defs)
  then obtain s'' where
    h5: "parts_loop ?L 3 4 (parts example_a_tab_b) False 3 0 example_tab_state = Continue s''" ..
  note t = tab_stop_bounds [OF h1, where s = example_tab_state and lineText = ?L
      and w = False and cbi = 3 and p = 0 and to = 3 and s' = s' and len = 3
      and ps = "parts example_a_tab_b" and rw = False and s'' = s'']
  from t h2 have a: "0 \<le> int (charIndex example_tab_state) + tabsCharDelta example_tab_state"
    "1 \<le> insertSpacesCount 4 (charIndex example_tab_state)
      (tabsCharDelta example_tab_state)"
    "insertSpacesCount 4 (charIndex example_tab_state) (tabsCharDelta example_tab_state) \<le> 4"
    by blast+
  from t h2 h3 have b: "int (length (out (switch_charCode ?L 4 False example_tab_state))) =
     int (length (out example_tab_state)) +
       insertSpacesCount 4 (charIndex example_tab_state) (tabsCharDelta example_tab_state)"
    by blast
  from t h2 h4 have c: "\<exists>s'. chars_loop ?L 4 False 3 0 3 example_tab_state = Continue s' \<and>
      tabsCharDelta example_tab_state \<le> tabsCharDelta s' \<and>
      charOffsetInPart' example_tab_state \<le> charOffsetInPart' s' \<and>
      reached ?L 4 s'"
    by blast
  from t h2 h5 have d: "\<exists>s''. parts_loop ?L 3 4 (parts example_a_tab_b) False 3 0
            example_tab_state = Continue s'' \<and>
      tabsCharDelta example_tab_state \<le> tabsCharDelta s'' \<and>
      reached ?L 4 s''"
    by blast
  from h1 h2 h3 a b c d show ?thesis by (intro conjI) assumption+
qed


subsection \<open>Escaping\<close>

text \<open>
  C7: where the line has \<open><\<close>, \<open>>\<close> or \<open>&\<close>, the switch pushes the entity of the
  character, \<open>&lt;\<close>, \<open>&gt;\<close> or \<open>&amp;\<close>, and nothing else. In the result of \<open>renderLine\<close>
  on any input, a fragment that is one of the three raw characters can only be the type
  label of a token, which is not a character of the line. And for every such character
  of the line, at index \<open>i\<close>: the line cut right after it ends with the entity and the
  marker of the cut, and the line rendered without a limit has the same fragments up to
  and including that entity.
\<close>

theorem escaping:
  "(\<forall>c\<in>{c_lowerThan, c_greaterThan, c_ampersand}.
      charCodeAt lineText (charIndex s) = Some c \<longrightarrow>
      out (switch_charCode lineText tabSize0 w s) = out s @ [entity c]) \<and>
   entity c_lowerThan = js ''&lt;'' \<and> entity c_greaterThan = js ''&gt;'' \<and>
   entity c_ampersand = js ''&amp;'' \<and>
   (renderLine input = Inr r \<longrightarrow>
      set (output r) \<inter> {js ''<'', js ''>'', js ''&''} \<subseteq> type ` set (parts input)) \<and>
   (i < length (lineContent input) \<and> parts input \<noteq> [] \<and>
    lineContent input ! i \<in> {c_lowerThan, c_greaterThan, c_ampersand} \<longrightarrow>
      (\<exists>r rF pre fs.
         renderLine (input\<lparr>stopRenderingLineAfter := int i + 1\<rparr>) = Inr r \<and>
         renderLine (input\<lparr>stopRenderingLineAfter := - 1\<rparr>) = Inr rF \<and>
         output r = pre @ [entity (lineContent input ! i), js ''&hellip;</span></span>''] \<and>
         output rF = pre @ entity (lineContent input ! i) # fs))"
proof -
  have a: "\<forall>c\<in>{c_lowerThan, c_greaterThan, c_ampersand}.
      charCodeAt lineText (charIndex s) = Some c \<longrightarrow>
      out (switch_charCode lineText tabSize0 w s) = out s @ [entity c]"
    using switch_out_escape by blast
  have b: "entity c_lowerThan = js ''&lt;''" "entity c_greaterThan = js ''&gt;''"
    "entity c_ampersand = js ''&amp;''"
    by (simp_all add: entity_def c_lowerThan_def c_greaterThan_def c_ampersand_def)
  have c: "renderLine input = Inr r \<longrightarrow>
      set (output r) \<inter> {js ''<'', js ''>'', js ''&''} \<subseteq> type ` set (parts input)"
    using renderLine_raw_fragments by blast
  have d: "i < length (lineContent input) \<and> parts input \<noteq> [] \<and>
    lineContent input ! i \<in> {c_lowerThan, c_greaterThan, c_ampersand} \<longrightarrow>
      (\<exists>r rF pre fs.
         renderLine (input\<lparr>stopRenderingLineAfter := int i + 1\<rparr>) = Inr r \<and>
         renderLine (input\<lparr>stopRenderingLineAfter := - 1\<rparr>) = Inr rF \<and>
         output r = pre @ [entity (lineContent input ! i), js ''&hellip;</span></span>''] \<and>
         output rF = pre @ entity (lineContent input ! i) # fs)"
    using escaped_at by blast
  from a b c d show ?thesis by (intro conjI) assumption+
qed

theorem escaping_witness:
  "c_lowerThan \<in> {c_lowerThan, c_greaterThan, c_ampersand} \<and>
   charCodeAt (lineContent example_cut) (charIndex example_lt_state) = Some c_lowerThan \<and>
   out (switch_charCode (lineContent example_cut) 4 False example_lt_state) =
     out example_lt_state @ [js ''&lt;''] \<and>
   (\<exists>r. renderLine example_cut = Inr r \<and>
      set (output r) \<inter> {js ''<'', js ''>'', js ''&''} \<subseteq> type ` set (parts example_cut)) \<and>
   2 < length (lineContent example_cut) \<and> parts example_cut \<noteq> [] \<and>
   lineContent example_cut ! 2 \<in> {c_lowerThan, c_greaterThan, c_ampersand} \<and>
   (\<exists>r rF pre fs.
      renderLine (example_cut\<lparr>stopRenderingLineAfter := int 2 + 1\<rparr>) = Inr r \<and>
      renderLine (example_cut\<lparr>stopRenderingLineAfter := - 1\<rparr>) = Inr rF \<and>
      output r = pre @ [entity (lineContent example_cut ! 2), js ''&hellip;</span></span>''] \<and>
      output rF = pre @ entity (lineContent example_cut ! 2) # fs)"
proof -
  let ?L = "lineContent example_cut"
  have h1: "c_lowerThan \<in> {c_lowerThan, c_greaterThan, c_ampersand}" by simp
  have h2: "charCodeAt ?L (charIndex example_lt_state) = Some c_lowerThan"
    by (simp add: example_lt_state_def example_cut_def charCodeAt_def js_def c_lowerThan_def)
  have "\<exists>r. renderLine example_cut = Inr r"
    by (simp add: renderLine_def example_cut_def js_def Let_def)
  then obtain r where h3: "renderLine example_cut = Inr r" ..
  have h4: "2 < length ?L" by (simp add: example_cut_def js_def)
  have h5: "parts example_cut \<noteq> []" by (simp add: example_cut_def)
  have h6: "?L ! 2 \<in> {c_lowerThan, c_greaterThan, c_ampersand}"
    by (simp add: example_cut_def js_def c_lowerThan_def)
  note t = escaping [where lineText = ?L and s = example_lt_state and ?tabSize0.0 = 4
      and w = False and input = example_cut and r = r and i = 2]
  from t h1 h2 have a: "out (switch_charCode ?L 4 False example_lt_state) =
     out example_lt_state @ [js ''&lt;'']"
    by (metis (no_types))
  from t h3 have b: "\<exists>r. renderLine example_cut = Inr r \<and>
      set (output r) \<inter> {js ''<'', js ''>'', js ''&''} \<subseteq> type ` set (parts example_cut)"
    by blast
  from t h4 h5 h6 have c: "\<exists>r rF pre fs.
      renderLine (example_cut\<lparr>stopRenderingLineAfter := int 2 + 1\<rparr>) = Inr r \<and>
      renderLine (example_cut\<lparr>stopRenderingLineAfter := - 1\<rparr>) = Inr rF \<and>
      output r = pre @ [entity (?L ! 2), js ''&hellip;</span></span>''] \<and>
      output rF = pre @ entity (?L ! 2) # fs"
    by blast
  from h1 h2 a b h4 h5 h6 c show ?thesis by (intro conjI) assumption+
qed

subsection \<open>Which characters a token takes\<close>

text \<open>
  C9: the start offset of the first token is never read: whatever it is set to, the
  result is the same. With no limit, all characters of a non-empty line are scanned,
  from the first one, whatever the start offsets are. And the character at index \<open>i\<close>
  belongs to exactly one token, seen as \<open>lastRenderedPartIndex\<close> when the line is cut
  right after it: the token \<open>k\<close> such that every token after the first up to \<open>k\<close> starts
  at or before \<open>i\<close> and the token after \<open>k\<close>, if there is one, starts after \<open>i\<close>. So a
  token takes the characters from where the one before it stopped up to the start of
  the next token (the end of the line for the last), and its own start offset plays no
  part in it.
\<close>

theorem token_ranges:
  "renderLine (input\<lparr>parts := q\<lparr>startIndex := x\<rparr> # qs\<rparr>) =
     renderLine (input\<lparr>parts := q # qs\<rparr>) \<and>
   (lineContent input \<noteq> [] \<and> parts input \<noteq> [] \<longrightarrow>
      (\<exists>rF. renderLine (input\<lparr>stopRenderingLineAfter := - 1\<rparr>) = Inr rF \<and>
            length (charOffsetInPart rF) = length (lineContent input) + 1)) \<and>
   (i < length (lineContent input) \<and> parts input \<noteq> [] \<longrightarrow>
      (\<exists>r k. renderLine (input\<lparr>stopRenderingLineAfter := int i + 1\<rparr>) = Inr r \<and>
         length (charOffsetInPart r) = i + 1 \<and>
         lastRenderedPartIndex r = int k \<and> k < length (parts input) \<and>
         (\<forall>j<k. startIndex (parts input ! (j + 1)) \<le> int i) \<and>
         (k + 1 < length (parts input) \<longrightarrow> int i < startIndex (parts input ! (k + 1)))))"
proof -
  have b: "lineContent input \<noteq> [] \<and> parts input \<noteq> [] \<longrightarrow>
      (\<exists>rF. renderLine (input\<lparr>stopRenderingLineAfter := - 1\<rparr>) = Inr rF \<and>
            length (charOffsetInPart rF) = length (lineContent input) + 1)"
  proof
    assume a: "lineContent input \<noteq> [] \<and> parts input \<noteq> []"
    then obtain sF where
      sF: "scan_of (input\<lparr>stopRenderingLineAfter := - 1\<rparr>) = Continue sF"
          "length (charOffsetInPartArr sF) = length (lineContent input)"
      using scan_of_unlimited by blast
    from a renderLine_unlimited [OF _ _ sF(1)] sF(2)
    show "\<exists>rF. renderLine (input\<lparr>stopRenderingLineAfter := - 1\<rparr>) = Inr rF \<and>
            length (charOffsetInPart rF) = length (lineContent input) + 1"
      by simp
  qed
  have c: "i < length (lineContent input) \<and> parts input \<noteq> [] \<longrightarrow>
      (\<exists>r k. renderLine (input\<lparr>stopRenderingLineAfter := int i + 1\<rparr>) = Inr r \<and>
         length (charOffsetInPart r) = i + 1 \<and>
         lastRenderedPartIndex r = int k \<and> k < length (parts input) \<and>
         (\<forall>j<k. startIndex (parts input ! (j + 1)) \<le> int i) \<and>
         (k + 1 < length (parts input) \<longrightarrow> int i < startIndex (parts input ! (k + 1))))"
  proof
    assume a: "i < length (lineContent input) \<and> parts input \<noteq> []"
    let ?t = "input\<lparr>stopRenderingLineAfter := int i + 1\<rparr>"
    have cb: "charBreakIndex_of ?t = int i" by (simp add: charBreakIndex_of_def)
    from a have ne: "lineContent ?t \<noteq> []" and ps: "parts ?t \<noteq> []" by auto
    from scan_of_flow [OF ps] a cb obtain r where r: "scan_of ?t = Return r" by auto
    have R: "renderLine ?t = Inr r" using ne ps r by (simp add: renderLine_scan)
    from scan_of_Return_part [OF r] cb obtain k where
      k: "lastRenderedPartIndex r = int k" "k < length (parts input)"
         "\<forall>j<k. startIndex (parts input ! (j + 1)) \<le> int i"
         "k + 1 < length (parts input) \<longrightarrow> int i < startIndex (parts input ! (k + 1))"
      by auto
    from scan_of_Return_table [OF r] cb have "length (charOffsetInPart r) = i + 1" by simp
    with R k show "\<exists>r k. renderLine ?t = Inr r \<and>
         length (charOffsetInPart r) = i + 1 \<and>
         lastRenderedPartIndex r = int k \<and> k < length (parts input) \<and>
         (\<forall>j<k. startIndex (parts input ! (j + 1)) \<le> int i) \<and>
         (k + 1 < length (parts input) \<longrightarrow> int i < startIndex (parts input ! (k + 1)))"
      by blast
  qed
  from renderLine_first_startIndex b c show ?thesis by (intro conjI) assumption+
qed

theorem token_ranges_witness:
  "renderLine (example_cut\<lparr>parts := [\<lparr>startIndex = 7, type = js ''x''\<rparr>,
                                    \<lparr>startIndex = 2, type = js ''y''\<rparr>]\<rparr>) =
     renderLine example_cut \<and>
   lineContent example_cut \<noteq> [] \<and> parts example_cut \<noteq> [] \<and>
   2 < length (lineContent example_cut) \<and>
   (\<exists>rF. renderLine (example_cut\<lparr>stopRenderingLineAfter := - 1\<rparr>) = Inr rF \<and>
      length (charOffsetInPart rF) = length (lineContent example_cut) + 1) \<and>
   (\<exists>r. renderLine (example_cut\<lparr>stopRenderingLineAfter := int 2 + 1\<rparr>) = Inr r \<and>
      length (charOffsetInPart r) = 2 + 1 \<and> lastRenderedPartIndex r = 1) \<and>
   (\<exists>r. renderLine (example_cut\<lparr>stopRenderingLineAfter := int 1 + 1\<rparr>) = Inr r \<and>
      length (charOffsetInPart r) = 1 + 1 \<and> lastRenderedPartIndex r = 0)"
proof -
  let ?ps = "parts example_cut"
  have h1: "lineContent example_cut \<noteq> []" by (simp add: example_cut_def js_def)
  have h2: "?ps \<noteq> []" by (simp add: example_cut_def)
  have h3: "2 < length (lineContent example_cut)" by (simp add: example_cut_def js_def)
  have h4: "1 < length (lineContent example_cut)" by (simp add: example_cut_def js_def)
  have p: "example_cut\<lparr>parts := \<lparr>startIndex = 0, type = js ''x''\<rparr> #
             [\<lparr>startIndex = 2, type = js ''y''\<rparr>]\<rparr> = example_cut"
    by (simp add: example_cut_def)
  note t = token_ranges [where input = example_cut and i = 2
      and q = "\<lparr>startIndex = 0, type = js ''x''\<rparr>" and x = 7
      and qs = "[\<lparr>startIndex = 2, type = js ''y''\<rparr>]"]
  from t p have a: "renderLine (example_cut\<lparr>parts := [\<lparr>startIndex = 7, type = js ''x''\<rparr>,
                                    \<lparr>startIndex = 2, type = js ''y''\<rparr>]\<rparr>) =
     renderLine example_cut"
    by simp
  from t h1 h2 have b: "\<exists>rF. renderLine (example_cut\<lparr>stopRenderingLineAfter := - 1\<rparr>) = Inr rF \<and>
      length (charOffsetInPart rF) = length (lineContent example_cut) + 1"
    by blast
  from t h3 h2 obtain r k where
    r: "renderLine (example_cut\<lparr>stopRenderingLineAfter := int 2 + 1\<rparr>) = Inr r"
       "length (charOffsetInPart r) = 2 + 1" "lastRenderedPartIndex r = int k"
       "k < length ?ps" "\<forall>j<k. startIndex (?ps ! (j + 1)) \<le> int 2"
       "k + 1 < length ?ps \<longrightarrow> int 2 < startIndex (?ps ! (k + 1))"
    by blast
  have len: "length ?ps = 2" and s1: "startIndex (?ps ! 1) = 2"
    by (simp_all add: example_cut_def)
  from r(4) len have "k = 0 \<or> k = 1" by auto
  with r(6) len s1 have "k = 1" by auto
  with r(1,2,3) have c: "\<exists>r. renderLine (example_cut\<lparr>stopRenderingLineAfter := int 2 + 1\<rparr>) = Inr r \<and>
      length (charOffsetInPart r) = 2 + 1 \<and> lastRenderedPartIndex r = 1"
    by auto
  from token_ranges [where input = example_cut and i = 1] h4 h2 obtain r' k' where
    r': "renderLine (example_cut\<lparr>stopRenderingLineAfter := int 1 + 1\<rparr>) = Inr r'"
       "length (charOffsetInPart r') = 1 + 1" "lastRenderedPartIndex r' = int k'"
       "k' < length ?ps" "\<forall>j<k'. startIndex (?ps ! (j + 1)) \<le> int 1"
    by blast
  from r'(4) len have "k' = 0 \<or> k' = 1" by auto
  with r'(5) s1 have "k' = 0" by auto
  with r'(1,2,3) have d: "\<exists>r. renderLine (example_cut\<lparr>stopRenderingLineAfter := int 1 + 1\<rparr>) = Inr r \<and>
      length (charOffsetInPart r) = 1 + 1 \<and> lastRenderedPartIndex r = 0"
    by auto
  from a h1 h2 h3 b c d show ?thesis by (intro conjI) assumption+
qed

subsection \<open>What the renderer writes\<close>

text \<open>
  C8: \<open>renderLine\<close> run on a store leaves every object that was there before the call
  as it was: what it writes are the arrays it has made itself. So with a store that has
  nothing above its limit and a token array that holds the tokens \<open>ps\<close>, the caller's
  array still holds the tokens \<open>ps\<close> after the call. The line text is a string, a value
  that no statement can change. The call returns what \<open>renderLine\<close> returns on the
  tokens as values; and when it scans, the array it has scanned is a new one at an
  address that was not in use, with the references of the caller's array: a copy, not
  the caller's array.
\<close>

theorem renderLine_keeps_input:
  "(renderLine_ref input \<sigma> = (res, \<sigma>') \<longrightarrow>
      lim \<sigma> \<le> lim \<sigma>' \<and> (\<forall>a<lim \<sigma>. objs \<sigma>' a = objs \<sigma> a)) \<and>
   (unused_above \<sigma> \<and> holds_tokens \<sigma> (parts_ref input) ps \<longrightarrow>
      (\<exists>res \<sigma>'. renderLine_ref input \<sigma> = (res, \<sigma>') \<and>
         holds_tokens \<sigma>' (parts_ref input) ps \<and>
         (case renderLine (value_of input ps) of
            Inl e \<Rightarrow> res = Inl (Thrown e)
          | Inr r \<Rightarrow>
              (\<exists>rr. res = Inr rr \<and> deref \<sigma>' rr = Some r) \<and>
              (lineContent_ref input = [] \<or>
               parts_ref input \<noteq> lim \<sigma> \<and> objs \<sigma>' (lim \<sigma>) = objs \<sigma> (parts_ref input)))))"
proof -
  have a: "renderLine_ref input \<sigma> = (res, \<sigma>') \<longrightarrow>
      lim \<sigma> \<le> lim \<sigma>' \<and> (\<forall>a<lim \<sigma>. objs \<sigma>' a = objs \<sigma> a)"
    using renderLine_ref_kept [of input \<sigma> res \<sigma>'] by (simp add: kept_def)
  have b: "unused_above \<sigma> \<and> holds_tokens \<sigma> (parts_ref input) ps \<longrightarrow>
      (\<exists>res \<sigma>'. renderLine_ref input \<sigma> = (res, \<sigma>') \<and>
         holds_tokens \<sigma>' (parts_ref input) ps \<and>
         (case renderLine (value_of input ps) of
            Inl e \<Rightarrow> res = Inl (Thrown e)
          | Inr r \<Rightarrow>
              (\<exists>rr. res = Inr rr \<and> deref \<sigma>' rr = Some r) \<and>
              (lineContent_ref input = [] \<or>
               parts_ref input \<noteq> lim \<sigma> \<and> objs \<sigma>' (lim \<sigma>) = objs \<sigma> (parts_ref input))))"
  proof
    assume "unused_above \<sigma> \<and> holds_tokens \<sigma> (parts_ref input) ps"
    then have u: "unused_above \<sigma>" and h: "holds_tokens \<sigma> (parts_ref input) ps" by simp_all
    obtain res0 \<sigma>0 where run: "renderLine_ref input \<sigma> = (res0, \<sigma>0)"
      by (cases "renderLine_ref input \<sigma>")
    from renderLine_ref_kept [OF run] have k: "kept \<sigma> \<sigma>0" .
    have h0: "holds_tokens \<sigma>0 (parts_ref input) ps" using holds_tokens_kept [OF u h k] .
    have n: "array_length \<sigma> (parts_ref input) = Some (length ps)"
      using holds_tokens_length [OF h] .
    have c: "case renderLine (value_of input ps) of
            Inl e \<Rightarrow> res0 = Inl (Thrown e)
          | Inr r \<Rightarrow>
              (\<exists>rr. res0 = Inr rr \<and> deref \<sigma>0 rr = Some r) \<and>
              (lineContent_ref input = [] \<or>
               parts_ref input \<noteq> lim \<sigma> \<and> objs \<sigma>0 (lim \<sigma>) = objs \<sigma> (parts_ref input))"
    proof (cases "lineContent_ref input = []")
      case True
      with run show ?thesis
        by (auto simp add: renderLine_ref_def renderLine_def value_of_def alloc_def deref_def)
    next
      case ne: False
      show ?thesis
      proof (cases "ps = []")
        case True
        with ne n run show ?thesis
          by (auto simp add: renderLine_ref_def renderLine_def value_of_def Let_def)
      next
        case ps: False
        from slice0_refines [OF u h] obtain \<sigma>1 where
          s1: "slice0 (parts_ref input) \<sigma> = Some (lim \<sigma>, \<sigma>1)" "kept \<sigma> \<sigma>1" "unused_above \<sigma>1"
              "lim \<sigma>1 = Suc (lim \<sigma>)" "holds_tokens \<sigma>1 (lim \<sigma>) ps"
              "objs \<sigma>1 (lim \<sigma>) = objs \<sigma> (parts_ref input)" "parts_ref input \<noteq> lim \<sigma>"
          by blast
        let ?L = "lineContent_ref input"
        let ?cbi = "if stopRenderingLineAfter_ref input = - 1 then int (length ?L)
             else stopRenderingLineAfter_ref input - 1"
        have unf: "renderLine_ref input \<sigma> =
          renderLineActual_ref ?L (int (length ?L)) (tabSize_ref input) (lim \<sigma>)
            (renderWhitespace_ref input) ?cbi \<sigma>1"
          using ne ps n s1(1) by (simp add: renderLine_ref_def Let_def)
        from renderLineActual_ref_refines [OF s1(3,5), of ?L "int (length ?L)" "tabSize_ref input"
            "renderWhitespace_ref input" ?cbi] unf run
        obtain rr where
          rr: "res0 = Inr rr"
              "deref \<sigma>0 rr = Some (renderLineActual ?L (int (length ?L)) (tabSize_ref input) ps
                 (renderWhitespace_ref input) ?cbi)"
          by auto
        from unf run have "renderLineActual_ref ?L (int (length ?L)) (tabSize_ref input) (lim \<sigma>)
            (renderWhitespace_ref input) ?cbi \<sigma>1 = (res0, \<sigma>0)" by simp
        from renderLineActual_ref_kept [OF this] s1(4,6)
        have cp: "objs \<sigma>0 (lim \<sigma>) = objs \<sigma> (parts_ref input)" by (simp add: kept_def)
        have "renderLine (value_of input ps) =
          Inr (renderLineActual ?L (int (length ?L)) (tabSize_ref input) ps
                 (renderWhitespace_ref input) ?cbi)"
          using ne ps by (simp add: renderLine_def value_of_def charBreakIndex_of_def Let_def)
        with rr cp s1(7) show ?thesis by simp
      qed
    qed
    from run h0 c show "\<exists>res \<sigma>'. renderLine_ref input \<sigma> = (res, \<sigma>') \<and>
         holds_tokens \<sigma>' (parts_ref input) ps \<and>
         (case renderLine (value_of input ps) of
            Inl e \<Rightarrow> res = Inl (Thrown e)
          | Inr r \<Rightarrow>
              (\<exists>rr. res = Inr rr \<and> deref \<sigma>' rr = Some r) \<and>
              (lineContent_ref input = [] \<or>
               parts_ref input \<noteq> lim \<sigma> \<and> objs \<sigma>' (lim \<sigma>) = objs \<sigma> (parts_ref input)))"
      by blast
  qed
  from a b show ?thesis by (rule conjI)
qed

theorem renderLine_keeps_input_witness:
  "unused_above example_store \<and>
   holds_tokens example_store (parts_ref example_cut_ref) (parts example_cut) \<and>
   value_of example_cut_ref (parts example_cut) = example_cut \<and>
   (\<exists>res \<sigma>' rr r.
      renderLine_ref example_cut_ref example_store = (res, \<sigma>') \<and>
      lim example_store \<le> lim \<sigma>' \<and>
      (\<forall>a<lim example_store. objs \<sigma>' a = objs example_store a) \<and>
      holds_tokens \<sigma>' (parts_ref example_cut_ref) (parts example_cut) \<and>
      renderLine example_cut = Inr r \<and> res = Inr rr \<and> deref \<sigma>' rr = Some r \<and>
      parts_ref example_cut_ref \<noteq> lim example_store \<and>
      objs \<sigma>' (lim example_store) = objs example_store (parts_ref example_cut_ref))"
proof -
  let ?ps = "parts example_cut"
  have h1: "unused_above example_store"
    by (simp add: unused_above_def example_store_def)
  have h2: "holds_tokens example_store (parts_ref example_cut_ref) ?ps"
    by (simp add: holds_tokens_def example_store_def example_cut_ref_def example_cut_def
        less_Suc_eq numeral_2_eq_2)
  have h3: "value_of example_cut_ref ?ps = example_cut"
    by (simp add: value_of_def example_cut_ref_def example_cut_def)
  have ne: "lineContent_ref example_cut_ref \<noteq> []" by (simp add: example_cut_ref_def js_def)
  have "\<exists>r. renderLine example_cut = Inr r"
    by (simp add: renderLine_def example_cut_def js_def Let_def)
  then obtain r where r: "renderLine example_cut = Inr r" ..
  from renderLine_keeps_input [where input = example_cut_ref and \<sigma> = example_store
      and ps = ?ps] h1 h2
  obtain res \<sigma>' where
    run: "renderLine_ref example_cut_ref example_store = (res, \<sigma>')" and
    h: "holds_tokens \<sigma>' (parts_ref example_cut_ref) ?ps" and
    c: "case renderLine (value_of example_cut_ref ?ps) of
            Inl e \<Rightarrow> res = Inl (Thrown e)
          | Inr r \<Rightarrow>
              (\<exists>rr. res = Inr rr \<and> deref \<sigma>' rr = Some r) \<and>
              (lineContent_ref example_cut_ref = [] \<or>
               parts_ref example_cut_ref \<noteq> lim example_store \<and>
               objs \<sigma>' (lim example_store) = objs example_store (parts_ref example_cut_ref))"
    by blast
  from c h3 r ne obtain rr where
    rr: "res = Inr rr" "deref \<sigma>' rr = Some r"
        "parts_ref example_cut_ref \<noteq> lim example_store"
        "objs \<sigma>' (lim example_store) = objs example_store (parts_ref example_cut_ref)"
    by auto
  from renderLine_keeps_input [where input = example_cut_ref and \<sigma> = example_store
      and res = res and \<sigma>' = \<sigma>'] run
  have k: "lim example_store \<le> lim \<sigma>'"
    "\<forall>a<lim example_store. objs \<sigma>' a = objs example_store a"
    by blast+
  from run k h r rr have "\<exists>res \<sigma>' rr r.
      renderLine_ref example_cut_ref example_store = (res, \<sigma>') \<and>
      lim example_store \<le> lim \<sigma>' \<and>
      (\<forall>a<lim example_store. objs \<sigma>' a = objs example_store a) \<and>
      holds_tokens \<sigma>' (parts_ref example_cut_ref) ?ps \<and>
      renderLine example_cut = Inr r \<and> res = Inr rr \<and> deref \<sigma>' rr = Some r \<and>
      parts_ref example_cut_ref \<noteq> lim example_store \<and>
      objs \<sigma>' (lim example_store) = objs example_store (parts_ref example_cut_ref)"
    by blast
  with h1 h2 h3 show ?thesis by (intro conjI) assumption+
qed

end
